theory Spec2Isabelle
  imports Complex_Main "HOL-Library.Multiset" "HOL-Library.Log_Nat"
begin

unbundle bit_operations_syntax

section \<open>Python values and errors\<close>

text \<open>
  The four modules of the cryptographic core (utils.py, tjl.py, encoding.py, iss.py) are
  pure Python over unbounded integers, so integers are \<^typ>\<open>int\<close>. Every \<^verbatim>\<open>raise\<close> of the
  source, and every exception the interpreter raises on the way (a zero divisor, a
  negative shift count, an index out of range, an integer that does not fit the dtype of
  a numpy array or the range of a float, a recursion deeper than the interpreter's
  recursion limit), is a value \<open>Inl e\<close> of the result type \<open>error + 'a\<close>. A \<^verbatim>\<open>ValueError\<close>
  carries the text of its message, with the fields the source formats into it left as
  written in the f-string.
\<close>

datatype error = ValueError string | ZeroDivisionError | IndexError | OverflowError | RecursionError

definition bindE :: "error + 'a \<Rightarrow> ('a \<Rightarrow> error + 'b) \<Rightarrow> error + 'b" where
  "bindE m f = (case m of Inl e \<Rightarrow> Inl e | Inr x \<Rightarrow> f x)"

text \<open>Python's \<^verbatim>\<open>%\<close> and \<^verbatim>\<open>//\<close> floor as \<open>mod\<close> and \<open>div\<close> on \<^typ>\<open>int\<close> do, and raise on zero.\<close>

definition py_mod :: "int \<Rightarrow> int \<Rightarrow> error + int" where
  "py_mod a b = (if b = 0 then Inl ZeroDivisionError else Inr (a mod b))"

definition py_floordiv :: "int \<Rightarrow> int \<Rightarrow> error + int" where
  "py_floordiv a b = (if b = 0 then Inl ZeroDivisionError else Inr (a div b))"

text \<open>Python's shifts raise on a negative count; \<^verbatim>\<open>>>\<close> floors.\<close>

definition py_shl :: "int \<Rightarrow> int \<Rightarrow> error + int" where
  "py_shl a k = (if k < 0 then Inl (ValueError ''negative shift count'')
                 else Inr (push_bit (nat k) a))"

definition py_shr :: "int \<Rightarrow> int \<Rightarrow> error + int" where
  "py_shr a k = (if k < 0 then Inl (ValueError ''negative shift count'')
                 else Inr (drop_bit (nat k) a))"

text \<open>
  A slice \<^verbatim>\<open>xs[:k]\<close>: the first \<open>k\<close> elements, and for a negative \<open>k\<close> all but the
  last \<open>-k\<close>.
\<close>

definition py_prefix :: "'a list \<Rightarrow> int \<Rightarrow> 'a list" where
  "py_prefix xs k = (if 0 \<le> k then take (nat k) xs else take (length xs - nat (- k)) xs)"

section \<open>utils.py\<close>

text \<open>
  \<^verbatim>\<open>_extended_gcd(a, b)\<close> recurses on \<^verbatim>\<open>(b % a, a)\<close> until \<open>a = 0\<close>, and every call is a
  frame on the interpreter's call stack. The interpreter bounds the depth of that stack
  (\<^verbatim>\<open>sys.getrecursionlimit()\<close>, 1000 unless it is changed) and raises \<^verbatim>\<open>RecursionError\<close> on the
  call that would exceed it. The argument \<open>depth\<close> is the number of frames of
  \<^verbatim>\<open>_extended_gcd\<close> that fit below the bound at the place where \<^verbatim>\<open>mod_inv\<close> calls it; it
  depends on the recursion limit and on how deep the caller already is. The functions
  that reach \<^verbatim>\<open>_extended_gcd\<close> (\<^verbatim>\<open>mod_inv\<close>, \<^verbatim>\<open>mod_pow\<close>, \<^verbatim>\<open>discrete_log_brute\<close>,
  \<^verbatim>\<open>share_protect\<close>, \<^verbatim>\<open>share_combine\<close>) each reach it along one chain of calls and take
  \<open>depth\<close> as their first argument.
\<close>

fun extended_gcd :: "nat \<Rightarrow> int \<Rightarrow> int \<Rightarrow> error + int \<times> int \<times> int" where
  "extended_gcd 0 a b = Inl RecursionError"
| "extended_gcd (Suc depth) a b =
     (if a = 0 then Inr (b, 0, 1)
      else bindE (extended_gcd depth (b mod a) a) (\<lambda>(gcd', x1, y1).
             Inr (gcd', y1 - (b div a) * x1, x1)))"

definition mod_inv :: "nat \<Rightarrow> int \<Rightarrow> int \<Rightarrow> error + int" where
  "mod_inv depth a m =
     (if m < 2 then Inl (ValueError ''mod must be >= 2'')
      else (let a' = a mod m in
            bindE (extended_gcd depth a' m) (\<lambda>(gcd', x, _).
              if gcd' \<noteq> 1
              then Inl (ValueError ''{a} has no inverse modulo {mod} (gcd={gcd})'')
              else Inr (x mod m))))"

text \<open>
  The built-in \<^verbatim>\<open>pow(base, exp, mod)\<close> of Python 3.8 and later: a zero modulus raises, a
  modulus of absolute value 1 gives 0, a negative exponent inverts the base first (and
  raises when it has no inverse), and the result has the sign of the modulus. The
  interpreter inverts the base with a loop in C, which the recursion limit does not
  bound; \<open>euclid a b\<close> is the triple \<open>(g, x, y)\<close> of the extended Euclidean algorithm on
  \<open>(a, b)\<close>, and the absolute value of its first argument decreases, so it is defined on
  every pair of integers.
\<close>

function euclid :: "int \<Rightarrow> int \<Rightarrow> int \<times> int \<times> int" where
  "euclid a b =
     (if a = 0 then (b, 0, 1)
      else (case euclid (b mod a) a of
              (gcd', x1, y1) \<Rightarrow> (gcd', y1 - (b div a) * x1, x1)))"
  by pat_completeness auto
termination
  by (relation "measure (\<lambda>(a, b). nat \<bar>a\<bar>)") (auto simp: abs_mod_less)

declare euclid.simps [simp del]

definition py_pow3 :: "int \<Rightarrow> int \<Rightarrow> int \<Rightarrow> error + int" where
  "py_pow3 b e m =
     (if m = 0 then Inl (ValueError ''pow() 3rd argument cannot be 0'')
      else if \<bar>m\<bar> = 1 then Inr 0
      else if e < 0 then
        (case euclid (b mod \<bar>m\<bar>) \<bar>m\<bar> of
           (gcd', x, _) \<Rightarrow>
             if gcd' \<noteq> 1
             then Inl (ValueError ''base is not invertible for the given modulus'')
             else Inr ((x mod \<bar>m\<bar>) ^ nat (- e) mod m))
      else Inr (b ^ nat e mod m))"

definition mod_pow :: "nat \<Rightarrow> int \<Rightarrow> int \<Rightarrow> int \<Rightarrow> error + int" where
  "mod_pow depth base ex m =
     (if m \<le> 0 then Inl (ValueError ''mod must be positive'')
      else if ex < 0 then bindE (mod_inv depth base m) (\<lambda>base'. py_pow3 base' (- ex) m)
      else py_pow3 base ex m)"

text \<open>
  The two search loops of \<^verbatim>\<open>discrete_log_brute\<close> have the same body: compare the
  accumulator with the target, return the loop variable on a match, else multiply the
  accumulator by the step and reduce. \<open>dlog_loop\<close> runs it over the values of the
  range and returns the matching loop variable, or \<open>None\<close> when the range is exhausted.
\<close>

fun dlog_loop :: "int \<Rightarrow> int \<Rightarrow> int \<Rightarrow> int list \<Rightarrow> int \<Rightarrow> int option" where
  "dlog_loop target step modulus [] acc = None"
| "dlog_loop target step modulus (x # xs) acc =
     (if acc = target then Some x
      else dlog_loop target step modulus xs ((acc * step) mod modulus))"

definition discrete_log_brute :: "nat \<Rightarrow> int \<Rightarrow> int \<Rightarrow> int \<Rightarrow> int \<Rightarrow> error + int" where
  "discrete_log_brute depth target base modulus max_val =
     bindE (py_mod target modulus) (\<lambda>target'.
       case dlog_loop target' base modulus [0..max_val] 1 of
         Some x \<Rightarrow> Inr x
       | None \<Rightarrow>
           bindE (mod_inv depth base modulus) (\<lambda>inv_base.
             case dlog_loop target' inv_base modulus [1..max_val] inv_base of
               Some x \<Rightarrow> Inr (- x)
             | None \<Rightarrow>
                 Inl (ValueError ''Discrete log not found in range [-{max_val}, {max_val}]'')))"

section \<open>tjl.py\<close>

text \<open>
  The public parameters. The fields \<^verbatim>\<open>n\<close>, \<^verbatim>\<open>g\<close> and \<^verbatim>\<open>h\<close> of the dataclass are written
  \<open>tjl_n\<close>, \<open>tjl_g\<close> and \<open>tjl_h\<close>.
\<close>

record TJLParams =
  tjl_n :: int
  n_squared :: int
  tjl_g :: int
  tjl_h :: int

text \<open>
  \<^verbatim>\<open>aggregate\<close> and \<^verbatim>\<open>share_combine\<close> run the same loop: the accumulator, starting at 1,
  is multiplied by each element and reduced modulo \<open>n_squared\<close>.
\<close>

fun mul_mod_loop :: "int \<Rightarrow> int list \<Rightarrow> int \<Rightarrow> error + int" where
  "mul_mod_loop m [] result = Inr result"
| "mul_mod_loop m (ct # cts) result =
     bindE (py_mod (result * ct) m) (\<lambda>result'. mul_mod_loop m cts result')"

definition aggregate :: "TJLParams \<Rightarrow> int list \<Rightarrow> error + int" where
  "aggregate params ciphertexts =
     (if ciphertexts = [] then Inl (ValueError ''ciphertexts list must not be empty'')
      else mul_mod_loop (n_squared params) ciphertexts 1)"

definition share_protect :: "nat \<Rightarrow> TJLParams \<Rightarrow> int \<Rightarrow> int \<Rightarrow> error + int" where
  "share_protect depth params secret_key_share aggregate_ct =
     mod_pow depth aggregate_ct secret_key_share (n_squared params)"

definition share_combine :: "nat \<Rightarrow> TJLParams \<Rightarrow> int list \<Rightarrow> int \<Rightarrow> error + int" where
  "share_combine depth params shares threshold =
     (if int (length shares) < threshold
      then Inl (ValueError ''Need at least {threshold} shares, got {len(shares)}'')
      else
        bindE (mul_mod_loop (n_squared params) (py_prefix shares threshold) 1) (\<lambda>combined.
        bindE (py_mod (combined - 1) (n_squared params)) (\<lambda>numerator.
        bindE (py_mod numerator (tjl_n params)) (\<lambda>r.
          if r \<noteq> 0
          then discrete_log_brute depth combined (tjl_g params) (n_squared params) 10000
          else bindE (py_floordiv numerator (tjl_n params)) (\<lambda>plaintext.
                 py_mod plaintext (tjl_n params))))))"

section \<open>encoding.py\<close>

text \<open>
  Python's floats are IEEE-754 doubles. A finite double is modelled by the rational
  number it denotes, and the float arguments of the functions below (\<^verbatim>\<open>value\<close>, \<^verbatim>\<open>scale\<close>,
  \<^verbatim>\<open>k_ratio\<close>, the entries of \<^verbatim>\<open>importance\<close>) are finite doubles. The result of an arithmetic
  operation is the exact result rounded to the nearest double and, on a tie, to the one
  whose last bit is 0. \<open>float_exponent x\<close> is the exponent \<open>e\<close> with
  \<open>2 ^ e \<le> \<bar>x\<bar> < 2 ^ (e + 1)\<close>. A double has 53 significant bits when its exponent is at
  least \<open>-1022\<close>; below that (the subnormal numbers) the doubles are the multiples of
  \<open>2 ^ -1074\<close>. \<open>round_nearest\<close> rounds to that grid. A result that rounds to \<open>2 ^ 1024\<close> or
  more in absolute value overflows: the float operators \<^verbatim>\<open>*\<close> and \<^verbatim>\<open>/\<close> return an infinity,
  \<^verbatim>\<open>float(i)\<close> and the true division of two integers raise \<^verbatim>\<open>OverflowError\<close>. NaN is not
  among the values: no operation below produces it from finite operands. The two zeros
  of IEEE arithmetic are both the number 0; they differ only in divisions by zero, which
  Python raises. Python's \<^verbatim>\<open>round\<close> rounds to the nearest integer and a tie to the even
  one.
\<close>

datatype pyfloat = Finite rat | PosInf | NegInf

definition py_round :: "rat \<Rightarrow> int" where
  "py_round x =
     (let f = \<lfloor>x\<rfloor>; d = x - of_int f in
      if d < 1 / 2 then f
      else if 1 / 2 < d then f + 1
      else if even f then f else f + 1)"

definition float_exponent :: "rat \<Rightarrow> int" where
  "float_exponent x =
     (if 1 \<le> \<bar>x\<bar> then bitlen \<lfloor>\<bar>x\<bar>\<rfloor> - 1 else - bitlen (\<lceil>1 / \<bar>x\<bar>\<rceil> - 1))"

definition round_nearest :: "rat \<Rightarrow> rat" where
  "round_nearest x =
     (if x = 0 then 0
      else (let ulp = 2 powi (max (float_exponent x) (- 1022) - 52)
            in of_int (py_round (x / ulp)) * ulp))"

definition round_double :: "rat \<Rightarrow> pyfloat" where
  "round_double x =
     (let r = round_nearest x;
          bound = of_int (2 ^ 1024)
      in if bound \<le> r then PosInf
         else if r \<le> - bound then NegInf
         else Finite r)"

text \<open>
  \<^verbatim>\<open>float(i)\<close> for an integer, the float product and quotient, and the true division
  \<^verbatim>\<open>a / b\<close> of two integers.
\<close>

definition py_float :: "int \<Rightarrow> error + rat" where
  "py_float i = (case round_double (of_int i) of Finite r \<Rightarrow> Inr r | _ \<Rightarrow> Inl OverflowError)"

definition float_mul :: "rat \<Rightarrow> rat \<Rightarrow> pyfloat" where
  "float_mul a b = round_double (a * b)"

definition float_div :: "rat \<Rightarrow> rat \<Rightarrow> error + pyfloat" where
  "float_div a b = (if b = 0 then Inl ZeroDivisionError else Inr (round_double (a / b)))"

definition int_true_div :: "int \<Rightarrow> int \<Rightarrow> error + rat" where
  "int_true_div a b =
     (if b = 0 then Inl ZeroDivisionError
      else case round_double (of_int a / of_int b) of
             Finite r \<Rightarrow> Inr r
           | _ \<Rightarrow> Inl OverflowError)"

text \<open>
  The comparison \<^verbatim>\<open><\<close>, and \<^verbatim>\<open>min(a, b)\<close> and \<^verbatim>\<open>max(a, b)\<close>, which return \<open>a\<close> unless \<open>b\<close> is
  strictly smaller (larger). Python compares an integer with a float by their exact
  values, so an integer operand is written \<open>Finite (of_int i)\<close>. \<^verbatim>\<open>int(round(x))\<close> and
  \<^verbatim>\<open>int(np.ceil(x))\<close> raise \<^verbatim>\<open>OverflowError\<close> on an infinity.
\<close>

fun float_lt :: "pyfloat \<Rightarrow> pyfloat \<Rightarrow> bool" where
  "float_lt (Finite x) (Finite y) = (x < y)"
| "float_lt (Finite x) PosInf = True"
| "float_lt (Finite x) NegInf = False"
| "float_lt NegInf (Finite y) = True"
| "float_lt NegInf PosInf = True"
| "float_lt NegInf NegInf = False"
| "float_lt PosInf b = False"

definition py_min :: "pyfloat \<Rightarrow> pyfloat \<Rightarrow> pyfloat" where
  "py_min a b = (if float_lt b a then b else a)"

definition py_max :: "pyfloat \<Rightarrow> pyfloat \<Rightarrow> pyfloat" where
  "py_max a b = (if float_lt a b then b else a)"

definition round_int :: "pyfloat \<Rightarrow> error + int" where
  "round_int x = (case x of Finite r \<Rightarrow> Inr (py_round r) | _ \<Rightarrow> Inl OverflowError)"

definition ceil_int :: "pyfloat \<Rightarrow> error + int" where
  "ceil_int x = (case x of Finite r \<Rightarrow> Inr \<lceil>r\<rceil> | _ \<Rightarrow> Inl OverflowError)"

text \<open>
  The bit-width map is an \<^verbatim>\<open>int32\<close> array: \<^verbatim>\<open>np.full(n, v, dtype=np.int32)\<close> and the
  assignment \<^verbatim>\<open>a[idxs] = v\<close> raise \<^verbatim>\<open>OverflowError\<close> on a Python integer outside the signed
  32-bit range, whether or not \<open>idxs\<close> is empty, and the assignment raises \<^verbatim>\<open>IndexError\<close> on
  an index outside the array.
\<close>

definition to_int32 :: "int \<Rightarrow> error + int" where
  "to_int32 v = (if - (2 ^ 31) \<le> v \<and> v < 2 ^ 31 then Inr v else Inl OverflowError)"

definition np_full :: "nat \<Rightarrow> int \<Rightarrow> error + int list" where
  "np_full n v = bindE (to_int32 v) (\<lambda>v'. Inr (replicate n v'))"

definition assign_at :: "nat list \<Rightarrow> int \<Rightarrow> int list \<Rightarrow> error + int list" where
  "assign_at idxs v xs =
     bindE (to_int32 v) (\<lambda>v'.
       if list_all (\<lambda>i. i < length xs) idxs then Inr (fold (\<lambda>i ys. ys[i := v']) idxs xs)
       else Inl IndexError)"

text \<open>
  \<^verbatim>\<open>adaptive_precision_map\<close>. \<^verbatim>\<open>np.argsort\<close> is a library function whose default sort is not
  stable: it returns the indices in ascending order of their keys, and the order among
  equal keys is not specified. The model takes it as the argument \<open>np_argsort\<close>, and the
  theorems assume of it only that its result is such an ordering. The product
  \<^verbatim>\<open>n * k_ratio\<close> converts \<open>n\<close> to a float and multiplies in float arithmetic, and the
  literal \<^verbatim>\<open>0.3\<close> is the double nearest to 3/10.
\<close>

definition adaptive_precision_map ::
    "(rat list \<Rightarrow> nat list) \<Rightarrow> rat list \<Rightarrow> rat \<Rightarrow> int \<Rightarrow> int \<Rightarrow> int \<Rightarrow> error + int list" where
  "adaptive_precision_map np_argsort importance k_ratio high_bits mid_bits low_bits =
     (if importance = [] then Inl (ValueError ''importance array must not be empty'')
      else if \<not> (0 < k_ratio \<and> k_ratio < 1) then Inl (ValueError ''k_ratio must be in (0, 1)'')
      else
        (let n = length importance;
             ranked_indices = np_argsort (map (\<lambda>x. - \<bar>x\<bar>) importance);
             mid_ratio = round_nearest (3 / 10)
         in bindE (py_float (int n)) (\<lambda>n_float.
            bindE (ceil_int (float_mul n_float k_ratio)) (\<lambda>top_ceil.
            bindE (ceil_int (float_mul n_float mid_ratio)) (\<lambda>mid_ceil.
              let top_count = max 1 top_ceil;
                  mid_count = max 1 mid_ceil
              in bindE (np_full n low_bits) (\<lambda>bit_widths.
                 bindE (assign_at (take (nat top_count) ranked_indices) high_bits bit_widths)
                   (\<lambda>bit_widths.
                     let mid_end = min (top_count + mid_count) (int n)
                     in assign_at (drop (nat top_count) (take (nat mid_end) ranked_indices))
                          mid_bits bit_widths)))))))"

definition quantize_value :: "rat \<Rightarrow> int \<Rightarrow> rat \<Rightarrow> error + int" where
  "quantize_value v bits scale =
     (if bits < 1 then Inl (ValueError ''bits must be >= 1'')
      else if scale = 0 then Inl (ValueError ''scale must be non-zero'')
      else
        bindE (py_shl 1 (bits - 1)) (\<lambda>half.
          let max_val = half - 1;
              min_val = - half
          in bindE (float_div v scale) (\<lambda>scaled.
               let clamped = py_max (Finite (of_int min_val))
                               (py_min (Finite (of_int max_val)) scaled)
               in round_int clamped)))"

definition dequantize_value :: "int \<Rightarrow> int \<Rightarrow> rat \<Rightarrow> error + pyfloat" where
  "dequantize_value q bits scale =
     (if bits < 1 then Inl (ValueError ''bits must be >= 1'')
      else if scale = 0 then Inl (ValueError ''scale must be non-zero'')
      else bindE (py_float q) (\<lambda>q_float. Inr (float_mul q_float scale)))"

text \<open>
  \<^verbatim>\<open>pack_vector\<close>. The first loop appends each value, masked to its width, to the
  bit-stream; its state is \<open>(stream, total_bits)\<close>.
\<close>

fun pack_stream :: "(int \<times> int) list \<Rightarrow> int \<times> int \<Rightarrow> error + int \<times> int" where
  "pack_stream [] st = Inr st"
| "pack_stream ((v, bw) # rest) (stream, total_bits) =
     bindE (py_shl 1 bw) (\<lambda>one_shl.
       let mask = one_shl - 1;
           encoded = v AND mask
       in bindE (py_shl stream bw) (\<lambda>shifted.
            pack_stream rest (shifted OR encoded, total_bits + bw)))"

text \<open>
  The second loop runs \<open>num_chunks\<close> times; the chunk it appends is cut out at a shift
  that depends on how many chunks there are already.
\<close>

fun pack_chunks :: "int \<Rightarrow> int \<Rightarrow> int \<Rightarrow> int \<Rightarrow> nat \<Rightarrow> int list \<Rightarrow> error + int list" where
  "pack_chunks stream num_chunks chunk_bits chunk_mask 0 chunks = Inr chunks"
| "pack_chunks stream num_chunks chunk_bits chunk_mask (Suc r) chunks =
     (let shift = (num_chunks - 1 - int (length chunks)) * chunk_bits in
      bindE (py_shr stream shift) (\<lambda>shifted.
        pack_chunks stream num_chunks chunk_bits chunk_mask r
          (chunks @ [shifted AND chunk_mask])))"

definition pack_vector :: "int list \<Rightarrow> int list \<Rightarrow> int \<Rightarrow> error + int list" where
  "pack_vector vals bit_widths chunk_bits =
     (if length vals \<noteq> length bit_widths
      then Inl (ValueError ''values length ({len(values)}) != bit_widths length ({len(bit_widths)})'')
      else
        bindE (pack_stream (zip vals bit_widths) (0, 0)) (\<lambda>(stream, total_bits).
        bindE (py_floordiv (total_bits + chunk_bits - 1) chunk_bits) (\<lambda>num_chunks.
          let pad = num_chunks * chunk_bits - total_bits in
          bindE (py_shl stream pad) (\<lambda>stream'.
          bindE (py_shl 1 chunk_bits) (\<lambda>one_shl.
            let chunk_mask = one_shl - 1 in
            pack_chunks stream' num_chunks chunk_bits chunk_mask (nat num_chunks) [])))))"

text \<open>\<^verbatim>\<open>unpack_vector\<close>: the loop that rebuilds the stream from the chunks.\<close>

fun unpack_stream :: "int \<Rightarrow> int list \<Rightarrow> int \<Rightarrow> error + int" where
  "unpack_stream chunk_bits [] stream = Inr stream"
| "unpack_stream chunk_bits (c # cs) stream =
     bindE (py_shl stream chunk_bits) (\<lambda>shifted. unpack_stream chunk_bits cs (shifted OR c))"

text \<open>
  The extraction loop runs \<open>i\<close> from \<open>n - 1\<close> down to 0; \<open>unpack_fields bws (Suc i)\<close> is
  the iteration at index \<open>i\<close> and those after it. Reading \<^verbatim>\<open>bit_widths[i]\<close> past the end
  raises.
\<close>

fun unpack_fields :: "int list \<Rightarrow> nat \<Rightarrow> int \<Rightarrow> int list \<Rightarrow> error + int list" where
  "unpack_fields bit_widths 0 stream result = Inr result"
| "unpack_fields bit_widths (Suc i) stream result =
     (if length bit_widths \<le> i then Inl IndexError
      else
        (let bw = bit_widths ! i in
         bindE (py_shl 1 bw) (\<lambda>one_shl.
           let mask = one_shl - 1;
               encoded = stream AND mask
           in bindE (py_shr stream bw) (\<lambda>stream'.
              bindE (py_shl 1 (bw - 1)) (\<lambda>half.
                let encoded' = (if half \<le> encoded then encoded - one_shl else encoded)
                in unpack_fields bit_widths i stream' (result @ [encoded']))))))"

text \<open>
  \<^verbatim>\<open>np.array(result, dtype=np.int64)\<close> raises \<^verbatim>\<open>OverflowError\<close> on a Python integer outside
  the signed 64-bit range.
\<close>

definition to_int64_array :: "int list \<Rightarrow> error + int list" where
  "to_int64_array xs =
     (if list_all (\<lambda>x. - (2 ^ 63) \<le> x \<and> x < 2 ^ 63) xs then Inr xs else Inl OverflowError)"

definition unpack_vector :: "int list \<Rightarrow> int list \<Rightarrow> int \<Rightarrow> int \<Rightarrow> error + int list" where
  "unpack_vector chunks bit_widths chunk_bits len =
     (if chunks = [] then Inl (ValueError ''chunks list must not be empty'')
      else
        (let n = (if 0 < len then len else int (length bit_widths)) in
         if n = 0 then Inl (ValueError ''bit_widths must not be empty when length is 0'')
         else
           bindE (unpack_stream chunk_bits chunks 0) (\<lambda>stream.
             let total_packed = int (length chunks) * chunk_bits;
                 total_bits = sum_list (py_prefix bit_widths n);
                 pad = total_packed - total_bits
             in bindE (py_shr stream pad) (\<lambda>stream'.
                bindE (unpack_fields bit_widths (nat n) stream' []) (\<lambda>result.
                  to_int64_array (rev result))))))"

section \<open>iss.py\<close>

text \<open>
  A share is a pair \<open>(x, y)\<close>. The loop of \<^verbatim>\<open>_lagrange_basis\<close> runs over
  \<^verbatim>\<open>enumerate(shares)\<close> with the state \<open>(num, den)\<close>, skips index \<open>j\<close> and raises on a
  second share with the x-coordinate of share \<open>j\<close>.
\<close>

fun lagrange_loop :: "int \<Rightarrow> nat \<Rightarrow> (nat \<times> int \<times> int) list \<Rightarrow> int \<times> int \<Rightarrow> error + int \<times> int" where
  "lagrange_loop x_j j [] acc = Inr acc"
| "lagrange_loop x_j j ((m, x_m, _) # rest) (num, den) =
     (if m = j then lagrange_loop x_j j rest (num, den)
      else if x_m = x_j
        then Inl (ValueError ''Duplicate x-coordinate {x_j} at indices {j} and {m}'')
      else lagrange_loop x_j j rest (num * (- x_m), den * (x_j - x_m)))"

definition lagrange_basis :: "(int \<times> int) list \<Rightarrow> nat \<Rightarrow> int option \<Rightarrow> error + int \<times> int" where
  "lagrange_basis shares j prime =
     (if length shares \<le> j then Inl IndexError
      else
        (let x_j = fst (shares ! j) in
         bindE (lagrange_loop x_j j (enumerate 0 shares) (1, 1)) (\<lambda>(num, den).
           case prime of
             None \<Rightarrow> Inr (num, den)
           | Some p \<Rightarrow>
               bindE (py_mod num p) (\<lambda>num'.
               bindE (py_mod den p) (\<lambda>den'. Inr (num', den'))))))"

text \<open>
  \<^verbatim>\<open>share\<close> draws two random numbers for each of the \<open>t\<close> coefficients:
  \<^verbatim>\<open>secrets.randbelow(coeff_bound)\<close> and \<^verbatim>\<open>secrets.randbelow(2)\<close>. The random source is the
  argument \<open>draws\<close>: \<open>draws k\<close> is the pair drawn in iteration \<open>k\<close>. The source draws the
  first below \<open>coeff_bound\<close> and the second below 2.
\<close>

definition coeff_bound :: "int \<Rightarrow> int" where
  "coeff_bound secret = max \<bar>secret\<bar> 1 * 2 ^ 64"

definition draw_coeff :: "int \<times> int \<Rightarrow> int" where
  "draw_coeff d = (let c = fst d + 1 in if snd d = 0 then - c else c)"

text \<open>The inner loop of \<^verbatim>\<open>share\<close>: the state is \<open>(y, xi)\<close>, with \<open>xi\<close> the power of \<open>i\<close>.\<close>

fun share_eval :: "int list \<Rightarrow> int \<Rightarrow> int \<times> int \<Rightarrow> int" where
  "share_eval [] i (y, xi) = y"
| "share_eval (a_k # rest) i (y, xi) = share_eval rest i (y + a_k * xi, xi * i)"

fun share_points :: "int list \<Rightarrow> int option \<Rightarrow> int list \<Rightarrow> error + (int \<times> int) list" where
  "share_points coeffs prime [] = Inr []"
| "share_points coeffs prime (i # rest) =
     bindE (case prime of
              None \<Rightarrow> Inr (share_eval coeffs i (0, 1))
            | Some p \<Rightarrow> py_mod (share_eval coeffs i (0, 1)) p) (\<lambda>y.
     bindE (share_points coeffs prime rest) (\<lambda>result. Inr ((i, y) # result)))"

definition share :: "(nat \<Rightarrow> int \<times> int) \<Rightarrow> int \<Rightarrow> int \<Rightarrow> int \<Rightarrow> int option \<Rightarrow> error + (int \<times> int) list" where
  "share draws secret n t prime =
     (if n < 1 then Inl (ValueError ''n must be >= 1'')
      else if t < 1 then Inl (ValueError ''t must be >= 1'')
      else if n \<le> t then Inl (ValueError ''t must be < n (need t+1 shares to reconstruct)'')
      else
        (let coeffs = secret # map (\<lambda>k. draw_coeff (draws k)) [0..<nat t]
         in share_points coeffs prime [1..n]))"

text \<open>
  \<^verbatim>\<open>reconstruct\<close>, modular mode: the loop over \<^verbatim>\<open>enumerate(subset)\<close>, with the state
  \<open>secret\<close>. The expression \<^verbatim>\<open>y_j * num % prime * den_inv\<close> reduces the first product
  before it multiplies by the inverse.
\<close>

fun reconstruct_mod_loop :: "(int \<times> int) list \<Rightarrow> int \<Rightarrow> (nat \<times> int \<times> int) list \<Rightarrow> int \<Rightarrow> error + int" where
  "reconstruct_mod_loop sub p [] secret = Inr secret"
| "reconstruct_mod_loop sub p ((j, _, y_j) # rest) secret =
     bindE (lagrange_basis sub j (Some p)) (\<lambda>(num, den).
     bindE (py_pow3 den (p - 2) p) (\<lambda>den_inv.
     bindE (py_mod (y_j * num) p) (\<lambda>yn.
     bindE (py_mod (secret + yn * den_inv) p) (\<lambda>secret'.
       reconstruct_mod_loop sub p rest secret'))))"

text \<open>
  Integer mode. The first loop collects the bases and the common denominator; the second
  accumulates the numerator.
\<close>

fun reconstruct_bases :: "(int \<times> int) list \<Rightarrow> nat list \<Rightarrow> (int \<times> int) list \<times> int \<Rightarrow>
    error + (int \<times> int) list \<times> int" where
  "reconstruct_bases sub [] st = Inr st"
| "reconstruct_bases sub (j # rest) (bases, common_den) =
     bindE (lagrange_basis sub j None) (\<lambda>(num_j, den_j).
       reconstruct_bases sub rest (bases @ [(num_j, den_j)], common_den * den_j))"

fun reconstruct_numerator :: "(int \<times> int) list \<Rightarrow> int \<Rightarrow> (nat \<times> int \<times> int) list \<Rightarrow> int \<Rightarrow> error + int" where
  "reconstruct_numerator bases common_den [] numerator = Inr numerator"
| "reconstruct_numerator bases common_den ((j, _, y_j) # rest) numerator =
     (if length bases \<le> j then Inl IndexError
      else
        (case bases ! j of (num_j, den_j) \<Rightarrow>
           bindE (py_floordiv common_den den_j) (\<lambda>q.
             reconstruct_numerator bases common_den rest (numerator + y_j * num_j * q))))"

definition reconstruct_fraction :: "(int \<times> int) list \<Rightarrow> error + int \<times> int" where
  "reconstruct_fraction sub =
     bindE (reconstruct_bases sub [0..<length sub] ([], 1)) (\<lambda>(bases, common_den).
     bindE (reconstruct_numerator bases common_den (enumerate 0 sub) 0) (\<lambda>numerator.
       Inr (numerator, common_den)))"

text \<open>
  \<^verbatim>\<open>reconstruct\<close>. In the fallback \<^verbatim>\<open>round(numerator / common_den)\<close> the true division of
  two integers gives the quotient rounded to a double, and raises when the quotient is
  beyond the range of the doubles.
\<close>

definition reconstruct :: "(int \<times> int) list \<Rightarrow> int \<Rightarrow> int option \<Rightarrow> error + int" where
  "reconstruct shares t prime =
     (let needed = t + 1 in
      if int (length shares) < needed
      then Inl (ValueError ''Need at least {needed} shares for threshold {t}, got {len(shares)}'')
      else
        (let sub = py_prefix shares needed in
         case prime of
           Some p \<Rightarrow> reconstruct_mod_loop sub p (enumerate 0 sub) 0
         | None \<Rightarrow>
             bindE (reconstruct_fraction sub) (\<lambda>(numerator, common_den).
             bindE (py_mod numerator common_den) (\<lambda>r.
               if r \<noteq> 0
               then bindE (int_true_div numerator common_den) (\<lambda>quotient.
                      Inr (py_round quotient))
               else py_floordiv numerator common_den))))"

section \<open>The specification's wording, and example data\<close>

text \<open>
  The number of calls \<^verbatim>\<open>_extended_gcd(a, b)\<close> makes, itself included: the depth of stack it
  needs.
\<close>

function gcd_calls :: "int \<Rightarrow> int \<Rightarrow> nat" where
  "gcd_calls a b = (if a = 0 then 1 else Suc (gcd_calls (b mod a) a))"
  by pat_completeness auto
termination
  by (relation "measure (\<lambda>(a, b). nat \<bar>a\<bar>)") (auto simp: abs_mod_less)

declare gcd_calls.simps [simp del]

text \<open>
  \<^verbatim>\<open>share_combine\<close> as the specification words it: the first \<open>threshold\<close> shares are
  multiplied modulo \<open>n_squared\<close>; with \<open>l = (combined - 1) mod n_squared\<close>, the result is
  \<open>l / n\<close> reduced modulo \<open>n\<close> when \<open>n\<close> divides \<open>l\<close>, and the brute-force discrete
  logarithm of \<open>combined\<close> to the base \<open>g\<close> otherwise.
\<close>

definition product_mod :: "int \<Rightarrow> int list \<Rightarrow> int" where
  "product_mod m xs = foldl (\<lambda>acc s. (acc * s) mod m) 1 xs"

definition share_combine_spec :: "nat \<Rightarrow> TJLParams \<Rightarrow> int list \<Rightarrow> int \<Rightarrow> error + int" where
  "share_combine_spec depth params shares threshold =
     (if int (length shares) < threshold
      then Inl (ValueError ''Need at least {threshold} shares, got {len(shares)}'')
      else
        (let combined = product_mod (n_squared params) (take (nat threshold) shares);
             l = (combined - 1) mod n_squared params
         in if tjl_n params dvd l then Inr ((l div tjl_n params) mod tjl_n params)
            else discrete_log_brute depth combined (tjl_g params) (n_squared params) 10000))"

text \<open>Small parameters of the shape \<^verbatim>\<open>setup\<close> builds: \<open>n = 5\<close>, \<open>n_squared = 25\<close>, \<open>g = 1 + n\<close>.\<close>

definition params25 :: TJLParams where
  "params25 = \<lparr>tjl_n = 5, n_squared = 25, tjl_g = 6, tjl_h = 1\<rparr>"

text \<open>
  The bit-stream \<^verbatim>\<open>pack_vector\<close> builds, as a number: appending a field of width \<open>bw\<close>
  shifts the stream left by \<open>bw\<close> bits and adds the value reduced modulo \<open>2 ^ bw\<close> (its
  two's-complement encoding).
\<close>

definition append_field :: "int \<Rightarrow> int \<times> int \<Rightarrow> int" where
  "append_field s p = s * 2 ^ nat (snd p) + fst p mod 2 ^ nat (snd p)"

definition stream_value :: "(int \<times> int) list \<Rightarrow> int" where
  "stream_value ps = foldl append_field 0 ps"

text \<open>The chunk at position \<open>k\<close>, counted from the least significant end of the stream.\<close>

definition chunk_at :: "int \<Rightarrow> int \<Rightarrow> nat \<Rightarrow> int" where
  "chunk_at stream chunk_bits k = stream div 2 ^ (k * nat chunk_bits) mod 2 ^ nat chunk_bits"

text \<open>
  A value fits the two's-complement range of a width \<open>bw \<ge> 1\<close> when it lies in
  \<open>[-2 ^ (bw - 1), 2 ^ (bw - 1))\<close>; it fits \<^verbatim>\<open>int64\<close> when it lies in \<open>[-2 ^ 63, 2 ^ 63)\<close>.
\<close>

definition fits_width :: "int \<Rightarrow> int \<Rightarrow> bool" where
  "fits_width bw v = (1 \<le> bw \<and> - (2 ^ nat (bw - 1)) \<le> v \<and> v < 2 ^ nat (bw - 1))"

definition fits_int64 :: "int \<Rightarrow> bool" where
  "fits_int64 v = (- (2 ^ 63) \<le> v \<and> v < 2 ^ 63)"

text \<open>
  A rational number is a (finite) double when rounding leaves it as it is. A bit width
  fits \<^verbatim>\<open>int32\<close> when it lies in \<open>[-2 ^ 31, 2 ^ 31)\<close>.
\<close>

definition is_double :: "rat \<Rightarrow> bool" where
  "is_double x = (round_double x = Finite x)"

definition fits_int32 :: "int \<Rightarrow> bool" where
  "fits_int32 v = (- (2 ^ 31) \<le> v \<and> v < 2 ^ 31)"

text \<open>
  What \<^verbatim>\<open>np.argsort\<close> guarantees of its result: it is a permutation of the indices of
  the keys, and the keys are ascending along it. \<open>stable_argsort\<close> is one such ordering,
  the one that keeps equal keys in index order.
\<close>

definition is_argsort :: "rat list \<Rightarrow> nat list \<Rightarrow> bool" where
  "is_argsort keys idxs =
     (mset idxs = mset [0..<length keys] \<and> sorted (map (\<lambda>i. keys ! i) idxs))"

definition stable_argsort :: "rat list \<Rightarrow> nat list" where
  "stable_argsort keys = sort_key (\<lambda>i. keys ! i) [0..<length keys]"

text \<open>
  The polynomial with the coefficient list \<open>cs\<close> (constant term first), and the numerator
  and denominator of the Lagrange basis at 0 for the x-coordinates \<open>xs\<close>, as products
  over the indices other than \<open>j\<close>.
\<close>

definition poly_eval :: "int list \<Rightarrow> int \<Rightarrow> int" where
  "poly_eval cs x = (\<Sum>k<length cs. cs ! k * x ^ k)"

definition basis_num :: "int list \<Rightarrow> nat \<Rightarrow> int" where
  "basis_num xs j = (\<Prod>m\<in>{..<length xs} - {j}. - (xs ! m))"

definition basis_den :: "int list \<Rightarrow> nat \<Rightarrow> int" where
  "basis_den xs j = (\<Prod>m\<in>{..<length xs} - {j}. xs ! j - xs ! m)"

text \<open>A prime: an integer above 1 that no integer from 2 up to itself divides.\<close>

definition is_prime :: "int \<Rightarrow> bool" where
  "is_prime p = (1 < p \<and> (\<forall>d \<in> {2..<p}. \<not> d dvd p))"

text \<open>
  Two random sources for the examples: one that always draws \<open>(0, 1)\<close>, so that every
  coefficient is 1, and one whose draws vary with the iteration.
\<close>

definition unit_draws :: "nat \<Rightarrow> int \<times> int" where
  "unit_draws k = (0, 1)"

definition example_draws :: "nat \<Rightarrow> int \<times> int" where
  "example_draws k = (int k + 5, int k mod 2)"

section \<open>Verification: utils.py\<close>

lemma bindE_Inr: "bindE (Inr x) f = f x"
  by (simp add: bindE_def)

subsection \<open>The extended Euclidean algorithm and the modular inverse\<close>

lemma gcd_mod_int: "gcd (b mod a) a = gcd b (a::int)"
  by (metis gcd.commute gcd_red_int)

lemma gcd_mod_int': "gcd (b mod a) a = gcd a (b::int)"
  by (metis gcd.commute gcd_red_int)

lemma euclid_unfold:
  "a \<noteq> 0 \<Longrightarrow> euclid (b mod a) a = (g', x1, y1) \<Longrightarrow>
   euclid a b = (g', y1 - (b div a) * x1, x1)"
  by (subst euclid.simps) simp

lemma euclid_correct:
  "0 \<le> a \<Longrightarrow> 0 \<le> b \<Longrightarrow> euclid a b = (g, x, y) \<Longrightarrow> g = gcd a b \<and> a * x + b * y = g"
proof (induction a b arbitrary: g x y rule: euclid.induct)
  case (1 a b)
  show ?case
  proof (cases "a = 0")
    case True
    with "1.prems" show ?thesis by (subst (asm) euclid.simps) simp
  next
    case False
    obtain g' x1 y1 where rec: "euclid (b mod a) a = (g', x1, y1)"
      by (metis prod_cases3)
    from False "1.prems" have apos: "0 < a" by simp
    have ih: "g' = gcd (b mod a) a \<and> (b mod a) * x1 + a * y1 = g'"
      using "1.IH"[OF False _ _ rec] apos by simp
    have eqs: "g = g' \<and> x = y1 - (b div a) * x1 \<and> y = x1"
      using euclid_unfold[OF False rec] "1.prems"(3) by simp
    have "a * (y1 - (b div a) * x1) + b * x1 = (b - a * (b div a)) * x1 + a * y1"
      by (simp add: algebra_simps)
    also have "b - a * (b div a) = b mod a"
      by (simp add: minus_mult_div_eq_mod)
    finally show ?thesis using ih eqs by (simp add: gcd_mod_int')
  qed
qed

lemma gcd_calls_zero: "gcd_calls 0 b = 1"
  by (subst gcd_calls.simps) simp

lemma gcd_calls_step: "a \<noteq> 0 \<Longrightarrow> gcd_calls a b = Suc (gcd_calls (b mod a) a)"
  by (subst gcd_calls.simps) simp

lemma gcd_calls_pos: "0 < gcd_calls a b"
  by (cases "a = 0") (simp_all add: gcd_calls_zero gcd_calls_step)

lemma extended_gcd_eq:
  "extended_gcd depth a b =
     (if gcd_calls a b \<le> depth then Inr (euclid a b) else Inl RecursionError)"
proof (induction depth arbitrary: a b)
  case 0
  then show ?case using gcd_calls_pos[of a b] by simp
next
  case (Suc depth)
  show ?case
  proof (cases "a = 0")
    case True
    then show ?thesis by (simp add: gcd_calls_zero euclid.simps[of 0 b])
  next
    case False
    obtain g' x1 y1 where rec: "euclid (b mod a) a = (g', x1, y1)"
      by (metis prod_cases3)
    show ?thesis
      using False Suc.IH[of "b mod a" a] euclid_unfold[OF False rec] rec
      by (simp add: gcd_calls_step bindE_def)
  qed
qed

lemma mod_inv_cases:
  "mod_inv depth a m =
    (if m < 2 then Inl (ValueError ''mod must be >= 2'')
     else if depth < gcd_calls (a mod m) m then Inl RecursionError
     else if gcd a m \<noteq> 1 then Inl (ValueError ''{a} has no inverse modulo {mod} (gcd={gcd})'')
     else Inr (fst (snd (euclid (a mod m) m)) mod m))"
proof (cases "m < 2")
  case True
  then show ?thesis by (simp add: mod_inv_def)
next
  case False
  obtain g x y where e: "euclid (a mod m) m = (g, x, y)" by (metis prod_cases3)
  have "g = gcd (a mod m) m" using euclid_correct[OF _ _ e] False by simp
  then have "g = gcd a m" by (simp add: gcd_mod_int)
  then show ?thesis using False e by (simp add: mod_inv_def extended_gcd_eq bindE_def)
qed

lemma mod_inv_Inr:
  assumes "mod_inv depth a m = Inr x"
  shows "2 \<le> m \<and> gcd a m = 1 \<and> 0 \<le> x \<and> x < m \<and> (a * x) mod m = 1"
proof -
  from assms have m: "2 \<le> m" and g: "gcd a m = 1"
    by (auto simp: mod_inv_cases split: if_splits)
  obtain g' x' y' where e: "euclid (a mod m) m = (g', x', y')" by (metis prod_cases3)
  from assms m g e have x: "x = x' mod m" by (simp add: mod_inv_cases split: if_splits)
  have "g' = gcd (a mod m) m \<and> (a mod m) * x' + m * y' = g'"
    using euclid_correct[OF _ _ e] m by simp
  then have bez: "(a mod m) * x' + m * y' = 1" using g by (simp add: gcd_mod_int)
  have "(a * x) mod m = ((a mod m) * x') mod m"
    unfolding x by (metis mod_mult_left_eq mod_mult_right_eq)
  also have "\<dots> = ((a mod m) * x' + m * y') mod m" by simp
  also have "\<dots> = 1" using bez m by simp
  finally show ?thesis using m g x by simp
qed

lemma mod_half:
  assumes "0 < c" "c < (a::int)"
  shows "2 * (a mod c) < a"
proof -
  have "a mod c < c" using assms by simp
  moreover have "a mod c \<le> a - c"
  proof -
    have "a mod c = (a - c) mod c" by (simp add: mod_diff_eq[symmetric])
    also have "\<dots> \<le> a - c" using assms by (intro zmod_le_nonneg_dividend) simp
    finally show ?thesis .
  qed
  ultimately show ?thesis by linarith
qed

lemma bitlen_mono: "x \<le> y \<Longrightarrow> bitlen x \<le> bitlen y"
  by (simp add: bitlen_def floorlog_mono nat_mono)

lemma bitlen_half:
  assumes "0 \<le> r" "2 * r < (a::int)"
  shows "bitlen r + 1 \<le> bitlen a"
proof (cases "r = 0")
  case True
  then have "0 < a" using assms by simp
  then have "1 \<le> bitlen a" using bitlen_eq_zero_iff[of a] bitlen_nonneg[of a] by linarith
  then show ?thesis using True by simp
next
  case False
  then have r: "0 < r" using assms by simp
  have "bitlen (r * 2 ^ 1) = bitlen r + 1" using bitlen_pow2[OF r, of 1] by simp
  moreover have "bitlen (r * 2 ^ 1) \<le> bitlen a" using assms by (intro bitlen_mono) simp
  ultimately show ?thesis by simp
qed

lemma gcd_calls_bound:
  "0 \<le> a \<Longrightarrow> gcd_calls a b \<le> 2 * nat (bitlen a) + 1"
proof (induction "nat a" arbitrary: a b rule: less_induct)
  case less
  show ?case
  proof (cases "a = 0")
    case True
    then show ?thesis by (simp add: gcd_calls_zero)
  next
    case False
    then have a: "0 < a" using less.prems by simp
    then have ba: "1 \<le> bitlen a" using bitlen_eq_zero_iff[of a] bitlen_nonneg[of a] by linarith
    define c where "c = b mod a"
    have c: "0 \<le> c" "c < a" using a by (simp_all add: c_def)
    show ?thesis
    proof (cases "c = 0")
      case True
      then show ?thesis using False ba by (simp add: gcd_calls_step c_def[symmetric] gcd_calls_zero)
    next
      case c0: False
      define r where "r = a mod c"
      have cpos: "0 < c" using c c0 by simp
      have r: "0 \<le> r" "2 * r < a" using mod_half[OF cpos c(2)] cpos by (simp_all add: r_def)
      have "nat r < nat a" using r a by simp
      from less.hyps[OF this r(1), of c] have ih: "gcd_calls r c \<le> 2 * nat (bitlen r) + 1" .
      have "bitlen r + 1 \<le> bitlen a" using r by (rule bitlen_half)
      then have "nat (bitlen r) + 1 \<le> nat (bitlen a)" using bitlen_nonneg[of r] by simp
      then have "gcd_calls r c + 2 \<le> 2 * nat (bitlen a) + 1" using ih by simp
      moreover have "gcd_calls a b = Suc (Suc (gcd_calls r c))"
        using False c0 by (simp add: gcd_calls_step c_def[symmetric] r_def[symmetric])
      ultimately show ?thesis by simp
    qed
  qed
qed

lemma py_pow3_nonneg: "0 < m \<Longrightarrow> 0 \<le> e \<Longrightarrow> py_pow3 b e m = Inr (b ^ nat e mod m)"
  by (auto simp: py_pow3_def)

text \<open>
  Claim C8, as amended. \<^verbatim>\<open>mod_pow\<close> raises the invalid-argument error when \<open>mod \<le> 0\<close>.
  For \<open>mod \<ge> 1\<close> and a non-negative exponent it returns \<open>base ^ exp mod mod\<close>. For a
  negative exponent it first calls \<^verbatim>\<open>mod_inv\<close> and negates the exponent. For \<open>mod = 1\<close> that
  call raises the invalid-argument error. For \<open>mod \<ge> 2\<close> the recursion of
  \<^verbatim>\<open>_extended_gcd\<close> on \<open>(base mod mod, mod)\<close> needs \<open>gcd_calls (base mod mod) mod\<close> frames,
  at most \<open>2 * bitlen mod + 1\<close>: when the interpreter's recursion limit leaves fewer,
  \<^verbatim>\<open>mod_pow\<close> raises \<^verbatim>\<open>RecursionError\<close>; when it leaves enough and the base is coprime to the
  modulus, \<^verbatim>\<open>mod_pow\<close> returns \<open>inv ^ (- exp) mod mod\<close> for the inverse \<open>inv\<close> of the base
  (\<open>0 \<le> inv < mod\<close>, \<open>base * inv mod mod = 1\<close>); and when the base has no inverse it
  raises the invalid-argument error of \<^verbatim>\<open>mod_inv\<close>.
\<close>

theorem mod_pow_cases:
  "(m \<le> 0 \<longrightarrow> mod_pow depth base ex m = Inl (ValueError ''mod must be positive'')) \<and>
   (1 \<le> m \<and> 0 \<le> ex \<longrightarrow> mod_pow depth base ex m = Inr (base ^ nat ex mod m)) \<and>
   (1 \<le> m \<and> ex < 0 \<longrightarrow>
      (if m = 1 then mod_pow depth base ex m = Inl (ValueError ''mod must be >= 2'')
       else if depth < gcd_calls (base mod m) m then mod_pow depth base ex m = Inl RecursionError
       else if gcd base m = 1
       then \<exists>inv. mod_inv depth base m = Inr inv \<and> 0 \<le> inv \<and> inv < m \<and>
                  (base * inv) mod m = 1 \<and>
                  mod_pow depth base ex m = Inr (inv ^ nat (- ex) mod m)
       else mod_pow depth base ex m =
              Inl (ValueError ''{a} has no inverse modulo {mod} (gcd={gcd})''))) \<and>
   (1 \<le> m \<longrightarrow> gcd_calls (base mod m) m \<le> 2 * nat (bitlen m) + 1)"
proof (intro conjI impI)
  assume "m \<le> 0"
  then show "mod_pow depth base ex m = Inl (ValueError ''mod must be positive'')"
    by (simp add: mod_pow_def)
next
  assume "1 \<le> m \<and> 0 \<le> ex"
  then show "mod_pow depth base ex m = Inr (base ^ nat ex mod m)"
    by (simp add: mod_pow_def py_pow3_nonneg)
next
  assume m: "1 \<le> m"
  have "gcd_calls (base mod m) m \<le> 2 * nat (bitlen (base mod m)) + 1"
    using m by (intro gcd_calls_bound) simp
  moreover have "base mod m < m" using m by simp
  then have "bitlen (base mod m) \<le> bitlen m"
    by (intro bitlen_mono) simp
  ultimately show "gcd_calls (base mod m) m \<le> 2 * nat (bitlen m) + 1"
    by (meson add_le_mono1 le_trans mult_le_mono2 nat_mono)
next
  assume a: "1 \<le> m \<and> ex < 0"
  show "if m = 1 then mod_pow depth base ex m = Inl (ValueError ''mod must be >= 2'')
       else if depth < gcd_calls (base mod m) m then mod_pow depth base ex m = Inl RecursionError
       else if gcd base m = 1
       then \<exists>inv. mod_inv depth base m = Inr inv \<and> 0 \<le> inv \<and> inv < m \<and>
                  (base * inv) mod m = 1 \<and>
                  mod_pow depth base ex m = Inr (inv ^ nat (- ex) mod m)
       else mod_pow depth base ex m =
              Inl (ValueError ''{a} has no inverse modulo {mod} (gcd={gcd})'')"
  proof (cases "2 \<le> m \<and> gcd_calls (base mod m) m \<le> depth \<and> gcd base m = 1")
    case True
    then obtain inv where i: "mod_inv depth base m = Inr inv"
      by (auto simp: mod_inv_cases)
    from mod_inv_Inr[OF i] a i True show ?thesis
      by (simp add: mod_pow_def bindE_def py_pow3_nonneg)
  next
    case False
    then show ?thesis using a
      by (auto simp: mod_pow_def bindE_def mod_inv_cases)
  qed
qed

lemma mod_pow_examples:
  "mod_inv 4 3 7 = Inr 5" "gcd_calls 3 7 = 3" "gcd_calls 5 8 = 5"
  "mod_pow 4 5 (- 1) 8 = Inl RecursionError" "mod_pow 5 5 (- 1) 8 = Inr 5"
  "mod_pow 2 3 (- 2) 7 = Inl RecursionError"
  by code_simp+

theorem mod_pow_cases_witness:
  "mod_pow 4 3 (- 2) 7 = Inr 4 \<and> mod_pow 2 3 (- 2) 7 = Inl RecursionError \<and>
   mod_pow 4 3 2 7 = Inr 2 \<and>
   mod_pow 4 3 2 0 = Inl (ValueError ''mod must be positive'')"
proof -
  have "gcd (3::int) 7 = 1"
    by (simp add: gcd_red_int[of 3 7] gcd_red_int[of 7 3])
  then have "\<exists>inv. mod_inv 4 3 7 = Inr inv \<and> mod_pow 4 3 (- 2) 7 = Inr (inv ^ nat 2 mod 7)"
    using mod_pow_cases[of 7 4 3 "- 2"] by (auto simp: mod_pow_examples(2))
  then have "mod_pow 4 3 (- 2) 7 = Inr 4" by (auto simp: mod_pow_examples(1))
  moreover have "mod_pow 2 3 (- 2) 7 = Inl RecursionError"
    using mod_pow_cases[of 7 2 3 "- 2"] by (simp add: mod_pow_examples(2))
  moreover have "mod_pow 4 3 2 7 = Inr 2"
    using mod_pow_cases[of 7 4 3 2] by simp
  moreover have "mod_pow 4 3 2 0 = Inl (ValueError ''mod must be positive'')"
    using mod_pow_cases[of 0 4 3 2] by simp
  ultimately show ?thesis by simp
qed

text \<open>
  Claim C8 as stated says that \<^verbatim>\<open>mod_pow\<close> succeeds for every \<open>mod \<ge> 1\<close>, with \<open>mod = 1\<close> and
  negative exponents included. It raises for the non-invertible base 2 modulo 4, for
  every negative exponent modulo 1, and for a base that is invertible when the recursion
  of \<^verbatim>\<open>_extended_gcd\<close> is deeper than the stack allows (here five calls where four fit).
\<close>

theorem mod_pow_fails_counterexample:
  "mod_pow 1000 2 (- 1) 4 = Inl (ValueError ''{a} has no inverse modulo {mod} (gcd={gcd})'') \<and>
   mod_pow 1000 5 (- 1) 1 = Inl (ValueError ''mod must be >= 2'') \<and>
   gcd (5::int) 8 = 1 \<and> mod_pow 4 5 (- 1) 8 = Inl RecursionError"
proof -
  have "mod_pow 1000 2 (- 1) 4 = Inl (ValueError ''{a} has no inverse modulo {mod} (gcd={gcd})'')"
    by code_simp
  moreover have "mod_pow 1000 5 (- 1) 1 = Inl (ValueError ''mod must be >= 2'')"
    by code_simp
  moreover have "gcd (5::int) 8 = 1"
    by (simp add: gcd_red_int[of 5 8] gcd_red_int[of 8 5] gcd_red_int[of 5 3] gcd_red_int[of 3 2])
  ultimately show ?thesis using mod_pow_examples(4) by simp
qed

subsection \<open>The brute-force discrete logarithm\<close>











section \<open>Verification: tjl.py\<close>

subsection \<open>aggregate\<close>

lemma mul_mod_loop_eq:
  "m \<noteq> 0 \<Longrightarrow> mul_mod_loop m cts r = Inr (if cts = [] then r else (r * prod_list cts) mod m)"
proof (induction cts arbitrary: r)
  case Nil
  then show ?case by simp
next
  case (Cons c cts)
  then show ?case
    by (simp add: py_mod_def bindE_def mod_mult_left_eq mult.assoc)
qed

lemma mul_mod_loop_zero:
  "cts \<noteq> [] \<Longrightarrow> mul_mod_loop 0 cts r = Inl ZeroDivisionError"
  by (cases cts) (simp_all add: py_mod_def bindE_def)

lemma aggregate_eq:
  "aggregate params cts =
    (if cts = [] then Inl (ValueError ''ciphertexts list must not be empty'')
     else if n_squared params = 0 then Inl ZeroDivisionError
     else Inr (prod_list cts mod n_squared params))"
  by (simp add: aggregate_def mul_mod_loop_eq mul_mod_loop_zero)

text \<open>
  Claim C6. For parameters with a non-zero modulus \<open>n_squared\<close>, \<^verbatim>\<open>aggregate\<close> fails on the
  empty list, returns the product of a non-empty list of ciphertexts modulo \<open>n_squared\<close>,
  returns the same result on every permutation of a list, and for non-empty \<open>cts1\<close> and
  \<open>cts2\<close> aggregating \<open>cts1 @ cts2\<close> gives what aggregating the two aggregates gives.
\<close>

theorem aggregate_product_order_assoc:
  assumes "n_squared params \<noteq> 0"
  shows "aggregate params [] = Inl (ValueError ''ciphertexts list must not be empty'') \<and>
    (cts \<noteq> [] \<longrightarrow> aggregate params cts = Inr (prod_list cts mod n_squared params)) \<and>
    (mset cts' = mset cts \<longrightarrow> aggregate params cts' = aggregate params cts) \<and>
    (cts1 \<noteq> [] \<and> cts2 \<noteq> [] \<longrightarrow>
       aggregate params (cts1 @ cts2) =
         bindE (aggregate params cts1) (\<lambda>a1.
         bindE (aggregate params cts2) (\<lambda>a2. aggregate params [a1, a2])))"
proof (intro conjI impI)
  show "aggregate params [] = Inl (ValueError ''ciphertexts list must not be empty'')"
    by (simp add: aggregate_def)
  show "aggregate params cts = Inr (prod_list cts mod n_squared params)" if "cts \<noteq> []"
    using that assms by (simp add: aggregate_eq)
  show "aggregate params cts' = aggregate params cts" if "mset cts' = mset cts"
  proof -
    have "prod_list cts' = prod_list cts"
      using that by (metis prod_mset_prod_list)
    moreover have "cts' = [] \<longleftrightarrow> cts = []"
      using that by (metis mset_zero_iff)
    ultimately show ?thesis by (simp add: aggregate_eq)
  qed
  show "aggregate params (cts1 @ cts2) =
           bindE (aggregate params cts1) (\<lambda>a1.
           bindE (aggregate params cts2) (\<lambda>a2. aggregate params [a1, a2]))"
    if "cts1 \<noteq> [] \<and> cts2 \<noteq> []"
    using that assms by (simp add: aggregate_eq bindE_def mod_mult_eq)
qed

theorem aggregate_product_order_assoc_witness:
  "aggregate params25 [6, 11, 21] = Inr 11 \<and>
   aggregate params25 [21, 6, 11] = aggregate params25 [6, 11, 21] \<and>
   aggregate params25 ([6, 11] @ [21]) =
     bindE (aggregate params25 [6, 11]) (\<lambda>a1.
     bindE (aggregate params25 [21]) (\<lambda>a2. aggregate params25 [a1, a2]))"
  using aggregate_product_order_assoc[of params25 "[6, 11, 21]" "[21, 6, 11]" "[6, 11]" "[21]"]
  by (auto simp: params25_def)

subsection \<open>share_combine\<close>

lemma mul_mod_loop_foldl:
  "m \<noteq> 0 \<Longrightarrow> mul_mod_loop m xs r = Inr (foldl (\<lambda>acc s. (acc * s) mod m) r xs)"
  by (induction xs arbitrary: r) (simp_all add: py_mod_def bindE_def)

lemma mod_inv_error:
  "mod_inv depth a m = Inl e \<Longrightarrow>
     e = ValueError ''mod must be >= 2'' \<or> e = RecursionError \<or>
     e = ValueError ''{a} has no inverse modulo {mod} (gcd={gcd})''"
  by (auto simp: mod_inv_cases split: if_splits)

lemma discrete_log_brute_error:
  assumes "discrete_log_brute depth target b m mv = Inl e"
  shows "e = ZeroDivisionError \<or> e = ValueError ''mod must be >= 2'' \<or> e = RecursionError \<or>
     e = ValueError ''{a} has no inverse modulo {mod} (gcd={gcd})'' \<or>
     e = ValueError ''Discrete log not found in range [-{max_val}, {max_val}]''"
proof (cases "m = 0")
  case True
  with assms show ?thesis by (simp add: discrete_log_brute_def py_mod_def bindE_def)
next
  case False
  show ?thesis
  proof (cases "dlog_loop (target mod m) b m [0..mv] 1")
    case (Some x)
    with assms False show ?thesis by (simp add: discrete_log_brute_def py_mod_def bindE_def)
  next
    case None
    show ?thesis
    proof (cases "mod_inv depth b m")
      case (Inl e')
      with assms False None have "e = e'"
        by (simp add: discrete_log_brute_def py_mod_def bindE_def)
      with mod_inv_error[OF Inl] show ?thesis by blast
    next
      case (Inr i)
      with assms False None show ?thesis
        by (cases "dlog_loop (target mod m) i m [1..mv] i")
           (simp_all add: discrete_log_brute_def py_mod_def bindE_def)
    qed
  qed
qed

lemma discrete_log_brute_not_need:
  "discrete_log_brute depth target b m mv \<noteq>
     Inl (ValueError ''Need at least {threshold} shares, got {len(shares)}'')"
proof
  assume "discrete_log_brute depth target b m mv =
     Inl (ValueError ''Need at least {threshold} shares, got {len(shares)}'')"
  from discrete_log_brute_error[OF this] show False by simp
qed

lemma share_combine_eq_spec:
  assumes "tjl_n params \<noteq> 0" and "n_squared params \<noteq> 0" and "0 \<le> threshold"
  shows "share_combine depth params xs threshold = share_combine_spec depth params xs threshold"
proof (cases "int (length xs) < threshold")
  case True
  then show ?thesis by (simp add: share_combine_def share_combine_spec_def)
next
  case False
  define combined where "combined = product_mod (n_squared params) (take (nat threshold) xs)"
  have loop: "mul_mod_loop (n_squared params) (py_prefix xs threshold) 1 = Inr combined"
    using assms by (simp add: mul_mod_loop_foldl combined_def product_mod_def py_prefix_def)
  show ?thesis
  proof (cases "tjl_n params dvd (combined - 1) mod n_squared params")
    case True
    then show ?thesis
      using False assms loop unfolding share_combine_def share_combine_spec_def
      by (simp add: bindE_def py_mod_def py_floordiv_def combined_def[symmetric])
  next
    case dv: False
    then show ?thesis
      using False assms loop unfolding share_combine_def share_combine_spec_def
      by (simp add: bindE_def py_mod_def py_floordiv_def combined_def[symmetric]
          mod_eq_0_iff_dvd)
  qed
qed


text \<open>
  Claim C3. For parameters with non-zero moduli \<open>n\<close> and \<open>n_squared\<close> and a threshold that
  is not negative, \<^verbatim>\<open>share_combine\<close> computes what the specification words
  (\<open>share_combine_spec\<close>): it raises the insufficient-shares error exactly when fewer than
  \<open>threshold\<close> shares are supplied; otherwise it multiplies the first \<open>threshold\<close> shares
  modulo \<open>n_squared\<close> and returns \<open>((combined - 1) mod n_squared) / n\<close> reduced modulo
  \<open>n\<close> when that division is exact, and \<^verbatim>\<open>discrete_log_brute(combined, g, n_squared)\<close>
  otherwise. Shares after the first \<open>threshold\<close> do not change the result. This holds
  at every depth of stack the recursion limit leaves.
\<close>

theorem share_combine_refines_spec:
  assumes "tjl_n params \<noteq> 0" and "n_squared params \<noteq> 0" and "0 \<le> threshold"
  shows "share_combine depth params shares threshold = share_combine_spec depth params shares threshold \<and>
    (share_combine depth params shares threshold =
        Inl (ValueError ''Need at least {threshold} shares, got {len(shares)}'')
      \<longleftrightarrow> int (length shares) < threshold) \<and>
    (threshold \<le> int (length shares) \<longrightarrow>
       share_combine depth params (shares @ extra) threshold = share_combine depth params shares threshold)"
proof -
  have iff: "share_combine_spec depth params shares threshold =
        Inl (ValueError ''Need at least {threshold} shares, got {len(shares)}'')
      \<longleftrightarrow> int (length shares) < threshold"
    by (auto simp: share_combine_spec_def Let_def discrete_log_brute_not_need)
  have extra: "share_combine_spec depth params (shares @ extra) threshold =
      share_combine_spec depth params shares threshold" if "threshold \<le> int (length shares)"
    using that assms by (simp add: share_combine_spec_def)
  show ?thesis using share_combine_eq_spec[OF assms] iff extra by simp
qed

theorem share_combine_refines_spec_witness:
  "share_combine 4 params25 [6, 11] 2 = Inr 3 \<and>
   share_combine 4 params25 [6, 11, 7] 2 = Inr 3 \<and>
   share_combine 4 params25 [6] 2 = Inl (ValueError ''Need at least {threshold} shares, got {len(shares)}'')"
  using share_combine_refines_spec[of params25 2 4 "[6, 11]" "[7]"]
        share_combine_refines_spec[of params25 2 4 "[6]" "[]"]
  by (simp add: params25_def share_combine_spec_def product_mod_def)

section \<open>Verification: encoding.py\<close>

subsection \<open>Zero-length vectors\<close>

text \<open>
  Claim C10. For every positive chunk width, \<^verbatim>\<open>pack_vector\<close> on empty arrays returns the
  empty chunk list; \<^verbatim>\<open>unpack_vector\<close> raises the invalid-argument error on the empty chunk
  list whatever its other arguments are; so unpacking what packing the empty vector
  returns does not give the empty vector back.
\<close>

theorem pack_unpack_empty:
  assumes "0 < chunk_bits"
  shows "pack_vector [] [] chunk_bits = Inr [] \<and>
    unpack_vector [] bit_widths chunk_bits len = Inl (ValueError ''chunks list must not be empty'') \<and>
    bindE (pack_vector [] [] chunk_bits) (\<lambda>chunks. unpack_vector chunks [] chunk_bits 0) \<noteq> Inr []"
proof -
  have d: "(chunk_bits - 1) div chunk_bits = 0"
    using assms by (simp add: div_pos_pos_trivial)
  have p: "pack_vector [] [] chunk_bits = Inr []"
    using assms by (simp add: pack_vector_def bindE_def py_floordiv_def py_shl_def d)
  have u: "unpack_vector [] bws chunk_bits l = Inl (ValueError ''chunks list must not be empty'')" for bws l
    by (simp add: unpack_vector_def)
  show ?thesis by (simp add: p u bindE_def)
qed

theorem pack_unpack_empty_witness:
  "pack_vector [] [] 512 = Inr [] \<and>
   unpack_vector [] [] 512 0 = Inl (ValueError ''chunks list must not be empty'')"
  using pack_unpack_empty[of 512 "[]" 0] by simp

subsection \<open>The pack/unpack round trip\<close>

lemma and_mask_mod: "(v::int) AND (2 ^ k - 1) = v mod 2 ^ k"
  by (metis mask_eq_exp_minus_1 take_bit_eq_mask take_bit_eq_mod)

lemma shl_or_add:
  assumes "0 \<le> e" "e < 2 ^ k"
  shows "push_bit k s OR e = s * 2 ^ k + (e::int)"
proof -
  have e: "take_bit k e = e" using assms by (simp add: take_bit_int_eq_self)
  have "push_bit k s OR take_bit k e = take_bit k e + push_bit k s"
    by (metis concat_bit_def concat_bit_eq or.commute)
  then show ?thesis by (simp add: e push_bit_eq_mult)
qed

lemma pack_stream_eq:
  "\<forall>p \<in> set ps. 0 \<le> snd p \<Longrightarrow>
   pack_stream ps (s, t) = Inr (foldl append_field s ps, t + sum_list (map snd ps))"
proof (induction ps arbitrary: s t)
  case Nil
  then show ?case by simp
next
  case (Cons p ps)
  obtain v bw where p: "p = (v, bw)" by (cases p)
  have bw: "0 \<le> bw" using Cons.prems p by simp
  have "push_bit (nat bw) s OR (v mod 2 ^ nat bw) = append_field s p"
    by (simp add: shl_or_add append_field_def p)
  then show ?case using Cons bw p
    by (simp add: py_shl_def bindE_def Let_def and_mask_mod add.assoc)
qed


lemma stream_value_snoc:
  "stream_value (ps @ [p]) = stream_value ps * 2 ^ nat (snd p) + fst p mod 2 ^ nat (snd p)"
  by (simp add: stream_value_def append_field_def)

lemma stream_value_bounds:
  "0 \<le> stream_value ps \<and> stream_value ps < 2 ^ nat (sum_list (map snd ps))" if "\<forall>p \<in> set ps. 0 \<le> snd p"
  using that
proof (induction ps rule: rev_induct)
  case Nil
  then show ?case by (simp add: stream_value_def)
next
  case (snoc p ps)
  define k where "k = nat (snd p)"
  define t where "t = nat (sum_list (map snd ps))"
  have ih: "0 \<le> stream_value ps" "stream_value ps < 2 ^ t"
    using snoc by (simp_all add: t_def)
  have nn: "0 \<le> sum_list (map snd ps)" "0 \<le> snd p"
    using snoc.prems by (auto intro!: sum_list_nonneg)
  have m: "0 \<le> fst p mod 2 ^ k" "fst p mod 2 ^ k < 2 ^ k" by simp_all
  have "stream_value ps + 1 \<le> 2 ^ t" using ih by simp
  then have "(stream_value ps + 1) * 2 ^ k \<le> 2 ^ t * 2 ^ k"
    by (intro mult_right_mono) simp_all
  then have "stream_value ps * 2 ^ k + 2 ^ k \<le> 2 ^ (t + k)"
    by (simp add: algebra_simps power_add)
  then have "stream_value ps * 2 ^ k + fst p mod 2 ^ k < 2 ^ (t + k)"
    using m(2) by linarith
  moreover have "nat (sum_list (map snd (ps @ [p]))) = t + k"
    using nn by (simp add: t_def k_def nat_add_distrib)
  ultimately show ?case using ih m by (simp add: stream_value_snoc k_def)
qed

lemma decode_field:
  assumes "1 \<le> bw" "- (2 ^ nat (bw - 1)) \<le> v" "v < 2 ^ nat (bw - 1)"
  shows "(if 2 ^ nat (bw - 1) \<le> v mod 2 ^ nat bw then v mod 2 ^ nat bw - 2 ^ nat bw else v mod 2 ^ nat bw) = (v::int)"
proof -
  define h :: int where "h = 2 ^ nat (bw - 1)"
  have p: "(2::int) ^ nat bw = 2 * h"
  proof -
    have "nat bw = Suc (nat (bw - 1))" using assms(1) by simp
    then show ?thesis by (simp add: h_def)
  qed
  have hpos: "0 < h" by (simp add: h_def)
  show ?thesis
  proof (cases "0 \<le> v")
    case True
    then have "v mod (2 * h) = v" using assms hpos by (simp add: h_def[symmetric])
    then show ?thesis using assms True by (simp add: p h_def[symmetric])
  next
    case False
    have "v mod (2 * h) = (v + 2 * h) mod (2 * h)" by simp
    also have "\<dots> = v + 2 * h"
      using assms False hpos by (intro mod_pos_pos_trivial) (simp_all add: h_def[symmetric])
    finally have "v mod (2 * h) = v + 2 * h" .
    then show ?thesis using assms False by (simp add: p h_def[symmetric])
  qed
qed


lemma unpack_fields_step:
  "i < length bws \<Longrightarrow> 1 \<le> bws ! i \<Longrightarrow>
   unpack_fields bws (Suc i) stream result =
     unpack_fields bws i (stream div 2 ^ nat (bws ! i))
       (result @ [if 2 ^ nat (bws ! i - 1) \<le> stream mod 2 ^ nat (bws ! i)
                  then stream mod 2 ^ nat (bws ! i) - 2 ^ nat (bws ! i)
                  else stream mod 2 ^ nat (bws ! i)])"
  by (simp add: py_shl_def py_shr_def bindE_def Let_def and_mask_mod drop_bit_eq_div)

lemma unpack_fields_eq:
  assumes "length vs = length bws"
    and "\<forall>k < length vs. 1 \<le> bws ! k \<and> - (2 ^ nat (bws ! k - 1)) \<le> vs ! k \<and> vs ! k < 2 ^ nat (bws ! k - 1)"
  shows "i \<le> length vs \<Longrightarrow>
    unpack_fields bws i (stream_value (take i (zip vs bws))) result = Inr (result @ rev (take i vs))"
proof (induction i arbitrary: result)
  case 0
  then show ?case by simp
next
  case (Suc i)
  define bw where "bw = bws ! i"
  define v where "v = vs ! i"
  define S where "S = stream_value (take i (zip vs bws))"
  have i: "i < length vs" "i < length bws" using Suc.prems assms(1) by simp_all
  have r: "1 \<le> bw" "- (2 ^ nat (bw - 1)) \<le> v" "v < 2 ^ nat (bw - 1)"
    using assms(2) i by (simp_all add: bw_def v_def)
  have tk: "take (Suc i) (zip vs bws) = take i (zip vs bws) @ [(v, bw)]"
    using i by (simp add: take_Suc_conv_app_nth v_def bw_def)
  have st: "stream_value (take (Suc i) (zip vs bws)) = S * 2 ^ nat bw + v mod 2 ^ nat bw"
    by (simp add: tk stream_value_snoc S_def)
  have enc: "(S * 2 ^ nat bw + v mod 2 ^ nat bw) mod 2 ^ nat bw = v mod 2 ^ nat bw"
    by simp
  have rest: "(S * 2 ^ nat bw + v mod 2 ^ nat bw) div 2 ^ nat bw = S"
    by simp
  have ih: "unpack_fields bws i S (result @ [v]) = Inr ((result @ [v]) @ rev (take i vs))"
    unfolding S_def using Suc.prems by (intro Suc.IH) simp
  have tv: "rev (take (Suc i) vs) = v # rev (take i vs)"
    using i by (simp add: take_Suc_conv_app_nth v_def)
  have "unpack_fields bws (Suc i) (S * 2 ^ nat bw + v mod 2 ^ nat bw) result =
        unpack_fields bws i S (result @ [v])"
    using i r unfolding unpack_fields_step[OF i(2) r(1)[unfolded bw_def]] bw_def[symmetric] enc rest
    by (simp only: decode_field[OF r])
  then show ?case by (simp add: st ih tv)
qed

lemma pack_chunks_eq:
  "0 \<le> cb \<Longrightarrow> int (length chunks) + int r = N \<Longrightarrow>
   pack_chunks stream N cb (2 ^ nat cb - 1) r chunks =
     Inr (chunks @ map (chunk_at stream cb) (rev [0..<r]))"
proof (induction r arbitrary: chunks)
  case 0
  then show ?case by simp
next
  case (Suc r)
  have sh: "(N - 1 - int (length chunks)) * cb = int r * cb"
    using Suc.prems by simp
  have nn: "\<not> int r * cb < 0" "nat (int r * cb) = r * nat cb"
    using Suc.prems(1) by (simp_all add: nat_mult_distrib not_less)
  have "pack_chunks stream N cb (2 ^ nat cb - 1) (Suc r) chunks =
        pack_chunks stream N cb (2 ^ nat cb - 1) r (chunks @ [chunk_at stream cb r])"
    unfolding pack_chunks.simps Let_def sh
    by (simp add: py_shr_def bindE_def and_mask_mod drop_bit_eq_div chunk_at_def nn)
  also have "\<dots> = Inr ((chunks @ [chunk_at stream cb r]) @ map (chunk_at stream cb) (rev [0..<r]))"
    using Suc.prems by (intro Suc.IH) simp_all
  finally show ?case by simp
qed

lemma unpack_stream_chunks:
  "0 \<le> cb \<Longrightarrow>
   unpack_stream cb (map (chunk_at stream cb) (rev [0..<N])) s =
     Inr (s * 2 ^ (N * nat cb) + stream mod 2 ^ (N * nat cb))"
proof (induction N arbitrary: s)
  case 0
  then show ?case by simp
next
  case (Suc N)
  define c where "c = chunk_at stream cb N"
  have cb: "0 \<le> c" "c < 2 ^ nat cb" by (simp_all add: c_def chunk_at_def)
  have "unpack_stream cb (map (chunk_at stream cb) (rev [0..<Suc N])) s =
        unpack_stream cb (map (chunk_at stream cb) (rev [0..<N])) (s * 2 ^ nat cb + c)"
    using Suc.prems shl_or_add[OF cb] by (simp add: py_shl_def bindE_def c_def)
  also have "\<dots> = Inr ((s * 2 ^ nat cb + c) * 2 ^ (N * nat cb) + stream mod 2 ^ (N * nat cb))"
    using Suc.prems by (intro Suc.IH)
  also have "(s * 2 ^ nat cb + c) * 2 ^ (N * nat cb) + stream mod 2 ^ (N * nat cb) =
      s * 2 ^ (Suc N * nat cb) + stream mod 2 ^ (Suc N * nat cb)"
  proof -
    have "stream mod 2 ^ (Suc N * nat cb) = stream mod (2 ^ (N * nat cb) * 2 ^ nat cb)"
      by (simp add: power_add mult.commute)
    also have "\<dots> = 2 ^ (N * nat cb) * c + stream mod 2 ^ (N * nat cb)"
      unfolding c_def chunk_at_def by (rule zmod_zmult2_eq) simp
    finally show ?thesis by (simp add: algebra_simps power_add)
  qed
  finally show ?case .
qed


lemma ceil_div_bounds:
  assumes "1 \<le> (T::int)" "1 \<le> cb"
  shows "1 \<le> (T + cb - 1) div cb" and "T \<le> (T + cb - 1) div cb * cb"
proof -
  have "cb \<le> T + cb - 1" using assms by simp
  then have "cb div cb \<le> (T + cb - 1) div cb" using assms by (intro zdiv_mono1) simp_all
  then show "1 \<le> (T + cb - 1) div cb" using assms by simp
  have "(T + cb - 1) div cb * cb = T + cb - 1 - (T + cb - 1) mod cb"
    by (simp add: algebra_simps minus_mod_eq_mult_div)
  moreover have "(T + cb - 1) mod cb \<le> cb - 1"
    using assms pos_mod_bound[of cb "T + cb - 1"] by simp
  ultimately show "T \<le> (T + cb - 1) div cb * cb" by simp
qed

text \<open>
  Claim C2, as amended. For every non-empty \<open>vs\<close> with one bit width per element, every
  element inside the two's-complement range of its width and inside the range of
  \<^verbatim>\<open>int64\<close> (the dtype of the array \<^verbatim>\<open>unpack_vector\<close> returns), and every chunk width that is
  at least every bit width, \<^verbatim>\<open>pack_vector\<close> returns chunks from which \<^verbatim>\<open>unpack_vector\<close>, given
  the same widths, chunk width and length, returns \<open>vs\<close>.
\<close>

theorem pack_unpack_roundtrip:
  assumes ne: "vs \<noteq> []"
    and len: "length vs = length bws"
    and fits: "\<forall>k < length vs. fits_width (bws ! k) (vs ! k) \<and> fits_int64 (vs ! k)"
    and cb: "\<forall>bw \<in> set bws. bw \<le> cb"
  shows "\<exists>chunks. pack_vector vs bws cb = Inr chunks \<and>
           unpack_vector chunks bws cb (int (length vs)) = Inr vs"
proof -
  define ps where "ps = zip vs bws"
  define S where "S = stream_value ps"
  define T where "T = sum_list bws"
  define N where "N = (T + cb - 1) div cb"
  define pad where "pad = N * cb - T"
  have n0: "0 < length vs" using ne by simp
  have bw1: "1 \<le> bw" if "bw \<in> set bws" for bw
    using that fits len by (auto simp: in_set_conv_nth fits_width_def)
  have snd_ps: "map snd ps = bws" using len by (simp add: ps_def)
  have nonneg: "\<forall>p \<in> set ps. 0 \<le> snd p"
    using bw1 snd_ps by (metis (no_types, lifting) dual_order.trans image_eqI list.set_map zero_le_one)
  have "hd bws \<in> set bws" using ne len by (cases bws) auto
  then have cb1: "1 \<le> cb" using bw1 cb by fastforce
  have "hd bws \<le> sum_list bws"
    using ne len bw1 by (cases bws) (auto intro!: sum_list_nonneg dest: bw1 simp: order.trans[OF zero_le_one])
  then have T1: "1 \<le> T" using bw1[OF \<open>hd bws \<in> set bws\<close>] by (simp add: T_def)
  have N1: "1 \<le> N" and NT: "T \<le> N * cb"
    using ceil_div_bounds[OF T1 cb1] by (simp_all add: N_def)
  have pad0: "0 \<le> pad" using NT by (simp add: pad_def)
  have Sb: "0 \<le> S" "S < 2 ^ nat T"
    using stream_value_bounds[OF nonneg] by (simp_all add: S_def snd_ps T_def)
  have stream: "pack_stream ps (0, 0) = Inr (S, T)"
    using pack_stream_eq[OF nonneg, of 0 0] by (simp add: S_def stream_value_def snd_ps T_def)
  define chunks where "chunks = map (chunk_at (S * 2 ^ nat pad) cb) (rev [0..<nat N])"
  have packed: "pack_vector vs bws cb = Inr chunks"
    using len cb1 pad0 N1 NT pack_chunks_eq[of cb "[]" "nat N" N "S * 2 ^ nat pad"]
    by (simp add: pack_vector_def stream[unfolded ps_def] bindE_def py_floordiv_def py_shl_def
        N_def[symmetric] pad_def[symmetric] push_bit_eq_mult chunks_def)
  have chunks_ne: "chunks \<noteq> []" and chunks_len: "int (length chunks) = N"
    using N1 by (simp_all add: chunks_def)
  have width: "nat N * nat cb = nat T + nat pad"
  proof -
    have "int (nat N * nat cb) = int (nat T + nat pad)"
      using N1 cb1 T1 pad0 by (simp add: pad_def)
    then show ?thesis by (simp only: int_int_eq)
  qed
  have "S * 2 ^ nat pad < 2 ^ nat T * 2 ^ nat pad"
    using Sb by (intro mult_strict_right_mono) simp_all
  then have small: "S * 2 ^ nat pad mod 2 ^ (nat N * nat cb) = S * 2 ^ nat pad"
    using Sb by (simp add: width power_add)
  have restream: "unpack_stream cb chunks 0 = Inr (S * 2 ^ nat pad)"
    using unpack_stream_chunks[of cb "S * 2 ^ nat pad" "nat N" 0] cb1
    by (simp add: chunks_def small)
  have fields: "unpack_fields bws (length vs) S [] = Inr (rev vs)"
    using unpack_fields_eq[OF len, of "length vs" "[]"] fits len
    by (simp add: fits_width_def S_def ps_def)
  have fields': "unpack_fields bws (length bws) S [] = Inr (rev vs)"
    using fields len by simp
  have i64: "to_int64_array vs = Inr vs"
    using fits by (auto simp: to_int64_array_def list_all_length fits_int64_def)
  have "unpack_vector chunks bws cb (int (length vs)) = Inr vs"
    using chunks_ne n0 pad0 len NT
    by (simp add: unpack_vector_def restream bindE_def py_shr_def py_prefix_def chunks_len
        T_def[symmetric] pad_def[symmetric] drop_bit_eq_div fields' i64)
  with packed show ?thesis by blast
qed

theorem pack_unpack_roundtrip_witness:
  "pack_vector [3, - 1] [4, 4] 8 = Inr [63] \<and> unpack_vector [63] [4, 4] 8 2 = Inr [3, - 1]"
proof -
  have p: "pack_vector [3, - 1] [4, 4] 8 = Inr [63]" by code_simp
  have "\<forall>k < length [3, - 1 :: int]. fits_width ([4, 4] ! k) ([3, - 1] ! k) \<and> fits_int64 ([3, - 1] ! k)"
    by (simp add: fits_width_def fits_int64_def less_Suc_eq nth_Cons')
  from pack_unpack_roundtrip[of "[3, - 1]" "[4, 4]" 8, OF _ _ this] p
  show ?thesis by simp
qed

text \<open>
  Claim C2 as stated asks only for the range of the bit width. The value \<open>2 ^ 63\<close> fits
  65 bits and is packed into one 65-bit chunk, but \<^verbatim>\<open>unpack_vector\<close> cannot return it in
  an \<^verbatim>\<open>int64\<close> array.
\<close>

theorem pack_unpack_int64_counterexample:
  "fits_width 65 (2 ^ 63) \<and> pack_vector [2 ^ 63] [65] 65 = Inr [2 ^ 63] \<and>
   unpack_vector [2 ^ 63] [65] 65 1 = Inl OverflowError"
  by code_simp

subsection \<open>Rounding to a double\<close>

lemma float_exponent_bounds:
  assumes "x \<noteq> 0"
  shows "2 powi float_exponent x \<le> \<bar>x\<bar>" and "\<bar>x\<bar> < 2 powi (float_exponent x + 1)"
proof -
  have "2 powi float_exponent x \<le> \<bar>x\<bar> \<and> \<bar>x\<bar> < 2 powi (float_exponent x + 1)"
  proof (cases "1 \<le> \<bar>x\<bar>")
    case True
    define a where "a = \<lfloor>\<bar>x\<bar>\<rfloor>"
    define k where "k = nat (bitlen a - 1)"
    have a: "0 < a" using True by (simp add: a_def)
    have b1: "1 \<le> bitlen a" using a bitlen_eq_zero_iff[of a] bitlen_nonneg[of a] by linarith
    have e: "float_exponent x = int k" using True b1 by (simp add: float_exponent_def a_def k_def)
    have nb: "nat (bitlen a) = Suc k" using b1 by (simp add: k_def)
    have lo: "2 ^ k \<le> a" and hi: "a < 2 ^ Suc k"
      using bitlen_bounds[OF a] by (simp_all add: k_def[symmetric] nb)
    have "(of_int (2 ^ k) :: rat) \<le> of_int a" using lo by (simp only: of_int_le_iff)
    then have "(2::rat) ^ k \<le> of_int a" by simp
    moreover have "of_int a \<le> \<bar>x\<bar>" by (simp add: a_def)
    ultimately have 1: "(2::rat) ^ k \<le> \<bar>x\<bar>" by linarith
    have "a + 1 \<le> 2 ^ Suc k" using hi by simp
    then have "(of_int (a + 1) :: rat) \<le> of_int (2 ^ Suc k)" by (simp only: of_int_le_iff)
    then have "(of_int (a + 1) :: rat) \<le> 2 ^ Suc k" by simp
    moreover have "\<bar>x\<bar> < of_int (a + 1)" unfolding a_def by linarith
    ultimately have 2: "\<bar>x\<bar> < (2::rat) ^ Suc k" by linarith
    show ?thesis using 1 2 by (simp add: e power_int_add)
  next
    case False
    define y where "y = 1 / \<bar>x\<bar>"
    define c where "c = \<lceil>y\<rceil> - 1"
    define k where "k = nat (bitlen c)"
    have xpos: "0 < \<bar>x\<bar>" using assms by simp
    have y1: "1 < y" using False xpos by (simp add: y_def)
    then have c: "0 < c" unfolding c_def by (simp add: less_ceiling_iff)
    have e: "float_exponent x = - int k"
      using False bitlen_nonneg[of c] by (simp add: float_exponent_def c_def y_def k_def)
    have b1: "1 \<le> bitlen c" using c bitlen_eq_zero_iff[of c] bitlen_nonneg[of c] by linarith
    then obtain k' where k': "k = Suc k'" unfolding k_def by (cases "nat (bitlen c)") auto
    have nb: "nat (bitlen c - 1) = k'" using b1 k' by (simp add: k_def)
    have lo: "2 ^ k' \<le> c" and hi: "c < 2 ^ k"
      using bitlen_bounds[OF c] by (simp_all add: nb k_def)
    have cy: "of_int c < y" unfolding c_def by linarith
    have "(of_int (2 ^ k') :: rat) \<le> of_int c" using lo by (simp only: of_int_le_iff)
    then have "(2::rat) ^ k' \<le> of_int c" by simp
    then have ylo: "(2::rat) ^ k' < y" using cy by linarith
    have "c + 1 \<le> 2 ^ k" using hi by simp
    then have "(of_int (c + 1) :: rat) \<le> of_int (2 ^ k)" by (simp only: of_int_le_iff)
    then have "(of_int (c + 1) :: rat) \<le> 2 ^ k" by simp
    moreover have "y \<le> of_int (c + 1)" unfolding c_def by simp
    ultimately have yhi: "y \<le> (2::rat) ^ k" by linarith
    have x: "\<bar>x\<bar> = 1 / y" using xpos by (simp add: y_def)
    have 1: "1 / (2::rat) ^ k \<le> \<bar>x\<bar>"
      unfolding x using yhi y1 by (intro divide_left_mono) simp_all
    have 2: "\<bar>x\<bar> < 1 / (2::rat) ^ k'"
      unfolding x using ylo y1 by (intro divide_strict_left_mono) (simp_all add: zero_less_mult_iff)
    have p1: "(2::rat) powi (- int k) = 1 / 2 ^ k"
      by (simp add: power_int_minus field_simps)
    have p2: "(2::rat) powi (- int k + 1) = 1 / 2 ^ k'"
      by (simp add: k' power_int_minus field_simps)
    show ?thesis using 1 2 by (simp only: e p1 p2)
  qed
  then show "2 powi float_exponent x \<le> \<bar>x\<bar>" and "\<bar>x\<bar> < 2 powi (float_exponent x + 1)"
    by simp_all
qed


lemma py_round_cases: "py_round x = \<lfloor>x\<rfloor> \<and> x - of_int \<lfloor>x\<rfloor> \<le> 1 / 2 \<or>
   py_round x = \<lfloor>x\<rfloor> + 1 \<and> 1 / 2 \<le> x - of_int \<lfloor>x\<rfloor>"
  by (auto simp: py_round_def Let_def)

lemma py_round_near: "\<bar>of_int (py_round x) - x\<bar> \<le> 1 / 2"
proof -
  have "of_int \<lfloor>x\<rfloor> \<le> x" "x < of_int \<lfloor>x\<rfloor> + 1" by linarith+
  then show ?thesis using py_round_cases[of x] by auto
qed

lemma py_round_bounds:
  assumes "of_int lo \<le> x" "x \<le> of_int hi"
  shows "lo \<le> py_round x \<and> py_round x \<le> hi"
proof -
  have lo: "lo \<le> \<lfloor>x\<rfloor>" using assms(1) by (simp add: le_floor_iff)
  have hi: "\<lfloor>x\<rfloor> \<le> hi" using assms(2) by (simp add: floor_le_iff)
  from py_round_cases[of x] show ?thesis
  proof
    assume "py_round x = \<lfloor>x\<rfloor> \<and> x - of_int \<lfloor>x\<rfloor> \<le> 1 / 2"
    then show ?thesis using lo hi by simp
  next
    assume a: "py_round x = \<lfloor>x\<rfloor> + 1 \<and> 1 / 2 \<le> x - of_int \<lfloor>x\<rfloor>"
    then have "of_int \<lfloor>x\<rfloor> < x" by linarith
    then have "of_int \<lfloor>x\<rfloor> < (of_int hi :: rat)" using assms(2) by linarith
    then have "\<lfloor>x\<rfloor> < hi" by simp
    then show ?thesis using a lo by simp
  qed
qed

lemma py_round_of_int: "py_round (of_int i) = i"
  by (simp add: py_round_def)

lemma ulp_pos: "0 < (2::rat) powi e"
  by (simp add: zero_less_power_int)


lemma round_nearest_ulp:
  assumes "x \<noteq> 0"
  shows "round_nearest x =
    of_int (py_round (x / 2 powi (max (float_exponent x) (- 1022) - 52))) *
      2 powi (max (float_exponent x) (- 1022) - 52)"
  using assms by (simp add: round_nearest_def Let_def)

lemma round_nearest_half_ulp:
  assumes "x \<noteq> 0"
  shows "\<bar>round_nearest x - x\<bar> \<le> 2 powi (max (float_exponent x) (- 1022) - 52) / 2"
proof -
  define u where "u = (2::rat) powi (max (float_exponent x) (- 1022) - 52)"
  have u: "0 < u" by (simp add: u_def ulp_pos)
  have "round_nearest x - x = (of_int (py_round (x / u)) - x / u) * u"
    using u by (simp add: round_nearest_ulp[OF assms] u_def[symmetric] algebra_simps)
  then have "\<bar>round_nearest x - x\<bar> = \<bar>of_int (py_round (x / u)) - x / u\<bar> * u"
    using u by (simp add: abs_mult)
  also have "\<dots> \<le> (1 / 2) * u"
    using py_round_near[of "x / u"] u by (intro mult_right_mono) simp_all
  finally show ?thesis by (simp add: u_def)
qed

lemma round_nearest_accuracy_normal:
  assumes "2 powi (- 1022) \<le> \<bar>x\<bar>"
  shows "\<bar>round_nearest x - x\<bar> \<le> \<bar>x\<bar> / 2 ^ 53"
proof -
  have x0: "x \<noteq> 0" using assms ulp_pos[of "- 1022"] by auto
  have e: "- 1022 \<le> float_exponent x"
  proof (rule ccontr)
    assume "\<not> - 1022 \<le> float_exponent x"
    then have "float_exponent x + 1 \<le> - 1022" by simp
    then have "(2::rat) powi (float_exponent x + 1) \<le> 2 powi (- 1022)"
      by (intro power_int_increasing) simp_all
    then show False using float_exponent_bounds(2)[OF x0] assms by linarith
  qed
  define u where "u = (2::rat) powi (float_exponent x - 52)"
  have "2 powi float_exponent x = u * 2 ^ 52"
    by (simp add: u_def power_int_diff)
  then have big: "u * 2 ^ 52 \<le> \<bar>x\<bar>" using float_exponent_bounds(1)[OF x0] by simp
  have "\<bar>round_nearest x - x\<bar> \<le> u / 2"
    using round_nearest_half_ulp[OF x0] e by (simp add: u_def max_def)
  also have "\<dots> = (u * 2 ^ 52) / 2 ^ 53" by simp
  also have "\<dots> \<le> \<bar>x\<bar> / 2 ^ 53"
    using big by (intro divide_right_mono) simp_all
  finally show ?thesis .
qed

lemma round_nearest_accuracy:
  "\<bar>round_nearest x - x\<bar> \<le> \<bar>x\<bar> / 2 ^ 53 + 2 powi (- 1075)"
proof (cases "2 powi (- 1022) \<le> \<bar>x\<bar>")
  case True
  have "0 \<le> (2::rat) powi (- 1075)" using ulp_pos[of "- 1075"] by simp
  then show ?thesis using round_nearest_accuracy_normal[OF True] by linarith
next
  case False
  show ?thesis
  proof (cases "x = 0")
    case True
    then show ?thesis using ulp_pos[of "- 1075"] by (simp add: round_nearest_def)
  next
    case x0: False
    have e: "float_exponent x < - 1022"
    proof (rule ccontr)
      assume "\<not> float_exponent x < - 1022"
      then have "(2::rat) powi (- 1022) \<le> 2 powi float_exponent x"
        by (intro power_int_increasing) simp_all
      then show False using float_exponent_bounds(1)[OF x0] False by linarith
    qed
    have "(2::rat) powi (- 1022 - 52) / 2 = 2 powi (- 1075)"
      by (simp add: power_int_diff power_int_minus)
    moreover have "\<bar>round_nearest x - x\<bar> \<le> 2 powi (- 1022 - 52) / 2"
      using round_nearest_half_ulp[OF x0] e by (simp add: max_def)
    moreover have "0 \<le> \<bar>x\<bar> / 2 ^ 53" by simp
    ultimately show ?thesis by linarith
  qed
qed

lemma round_nearest_pos:
  assumes "2 powi (- 1074) \<le> x"
  shows "0 < round_nearest x"
proof -
  define e where "e = max (float_exponent x) (- 1022)"
  define u where "u = (2::rat) powi (e - 52)"
  have u: "0 < u" by (simp add: u_def ulp_pos)
  have xpos: "0 < x" using assms ulp_pos[of "- 1074"] by linarith
  then have x0: "x \<noteq> 0" by simp
  have "u \<le> x"
  proof (cases "- 1022 \<le> float_exponent x")
    case True
    then have "e = float_exponent x" by (simp add: e_def)
    then have "u \<le> 2 powi float_exponent x"
      unfolding u_def by (intro power_int_increasing) simp_all
    then show ?thesis using float_exponent_bounds(1)[OF x0] xpos by simp
  next
    case False
    then have "e = - 1022" by (simp add: e_def)
    then have "u = 2 powi (- 1074)" by (simp add: u_def)
    then show ?thesis using assms by simp
  qed
  then have "of_int 1 \<le> x / u" using u by (simp add: pos_le_divide_eq)
  then have "1 \<le> py_round (x / u)"
    using py_round_bounds[of 1 "x / u" "\<lceil>x / u\<rceil>"] by simp
  then have "0 < (of_int (py_round (x / u)) :: rat)" by simp
  then show ?thesis
    using u by (simp add: round_nearest_ulp[OF x0] u_def[symmetric] e_def[symmetric])
qed

lemma float_exponent_le:
  assumes "0 < x" "x < 2 ^ 53"
  shows "float_exponent x \<le> 52"
proof (rule ccontr)
  assume "\<not> float_exponent x \<le> 52"
  then have "53 \<le> float_exponent x" by simp
  then have "(2::rat) powi 53 \<le> 2 powi float_exponent x"
    by (intro power_int_increasing) simp_all
  also have "\<dots> \<le> \<bar>x\<bar>" using float_exponent_bounds(1)[of x] assms by simp
  finally show False using assms by simp
qed

lemma round_nearest_le_int:
  assumes "0 < x" "x \<le> of_int n" "n < 2 ^ 53"
  shows "round_nearest x \<le> of_int n"
proof -
  define e where "e = max (float_exponent x) (- 1022)"
  define k where "k = nat (52 - e)"
  define u where "u = (2::rat) powi (e - 52)"
  have x0: "x \<noteq> 0" using assms by simp
  have "x < 2 ^ 53"
  proof -
    have "(of_int n :: rat) < of_int (2 ^ 53)" using assms(3) by (simp only: of_int_less_iff)
    then show ?thesis using assms(2) by simp
  qed
  then have "float_exponent x \<le> 52" using assms(1) by (rule float_exponent_le[rotated])
  then have e: "e \<le> 52" by (simp add: e_def)
  have u: "u = 1 / 2 ^ k"
    using e by (simp add: u_def k_def power_int_def field_simps)
  have upos: "0 < u" by (simp add: u_def ulp_pos)
  have "x / u \<le> of_int n / u" using assms(2) upos by (simp add: divide_right_mono)
  also have "of_int n / u = of_int (n * 2 ^ k)" by (simp add: u)
  finally have "py_round (x / u) \<le> n * 2 ^ k"
    using py_round_bounds[of "\<lfloor>x / u\<rfloor>" "x / u" "n * 2 ^ k"] by simp
  then have "(of_int (py_round (x / u)) :: rat) \<le> of_int (n * 2 ^ k)" by (simp only: of_int_le_iff)
  then have "of_int (py_round (x / u)) * u \<le> of_int (n * 2 ^ k) * u"
    using upos by (intro mult_right_mono) simp_all
  also have "\<dots> = of_int n" by (simp add: u)
  finally show ?thesis
    by (simp add: round_nearest_ulp[OF x0] u_def[symmetric] e_def[symmetric])
qed

lemma round_nearest_of_int:
  assumes "0 \<le> n" "n < 2 ^ 53"
  shows "round_nearest (of_int n) = of_int n"
proof (cases "n = 0")
  case True
  then show ?thesis by (simp add: round_nearest_def)
next
  case False
  define x :: rat where "x = of_int n"
  define e where "e = max (float_exponent x) (- 1022)"
  define k where "k = nat (52 - e)"
  define u where "u = (2::rat) powi (e - 52)"
  have x: "0 < x" using False assms(1) by (simp add: x_def)
  then have x0: "x \<noteq> 0" by simp
  have "x < 2 ^ 53"
  proof -
    have "(of_int n :: rat) < of_int (2 ^ 53)" using assms(2) by (simp only: of_int_less_iff)
    then show ?thesis by (simp add: x_def)
  qed
  then have "float_exponent x \<le> 52" using x by (rule float_exponent_le[rotated])
  then have e: "e \<le> 52" by (simp add: e_def)
  have u: "u = 1 / 2 ^ k"
    using e by (simp add: u_def k_def power_int_def field_simps)
  have "x / u = of_int (n * 2 ^ k)" by (simp add: u x_def)
  then have "py_round (x / u) = n * 2 ^ k" by (simp only: py_round_of_int)
  then have "of_int (py_round (x / u)) * u = x" by (simp add: u x_def)
  then show ?thesis
    by (simp add: round_nearest_ulp[OF x0] u_def[symmetric] e_def[symmetric] x_def[symmetric])
qed

lemma round_double_Finite:
  assumes "\<bar>round_nearest x\<bar> < 2 ^ 1024"
  shows "round_double x = Finite (round_nearest x)"
proof -
  have "\<not> 2 ^ 1024 \<le> round_nearest x" "\<not> round_nearest x \<le> - (2 ^ 1024)"
    using assms by linarith+
  then show ?thesis by (simp only: round_double_def Let_def of_int_power of_int_numeral if_False)
qed

lemma round_double_Finite_iff:
  "round_double x = Finite r \<longleftrightarrow> round_nearest x = r \<and> \<bar>r\<bar> < 2 ^ 1024"
proof -
  have b: "(of_int (2 ^ 1024) :: rat) = 2 ^ 1024" by (simp only: of_int_power of_int_numeral)
  show ?thesis
    unfolding round_double_def Let_def b
    by (cases "2 ^ 1024 \<le> round_nearest x"; cases "round_nearest x \<le> - (2 ^ 1024)") auto
qed

lemma round_double_small:
  assumes "round_nearest x = r" "\<bar>r\<bar> \<le> 2 ^ 64"
  shows "round_double x = Finite r"
proof -
  have "(2::rat) ^ 64 < 2 ^ 1024" by (rule power_strict_increasing) simp_all
  then have "\<bar>round_nearest x\<bar> < 2 ^ 1024" using assms by linarith
  then show ?thesis using round_double_Finite[of x] assms(1) by simp
qed

lemma py_float_exact:
  assumes "0 \<le> n" "n < 2 ^ 53"
  shows "py_float n = Inr (of_int n)"
proof -
  have r: "round_nearest (of_int n) = of_int n" using assms by (rule round_nearest_of_int)
  have "(of_int n :: rat) < of_int (2 ^ 53)" using assms(2) by (simp only: of_int_less_iff)
  then have "(of_int n :: rat) < 2 ^ 53" by simp
  moreover have "(2::rat) ^ 53 \<le> 2 ^ 1024" by (rule power_increasing) simp_all
  ultimately have "\<bar>of_int n :: rat\<bar> < 2 ^ 1024" using assms(1) by simp
  then have "round_double (of_int n) = Finite (of_int n)"
    using round_double_Finite[of "of_int n"] r by simp
  then show ?thesis by (simp add: py_float_def)
qed

lemma is_double_ge:
  assumes "is_double k" "0 < k"
  shows "2 powi (- 1074) \<le> k"
proof -
  define e where "e = max (float_exponent k) (- 1022)"
  define u where "u = (2::rat) powi (e - 52)"
  have k0: "k \<noteq> 0" using assms by simp
  have "round_double k = Finite k" using assms(1) by (simp add: is_double_def)
  then have "round_nearest k = k" by (simp only: round_double_Finite_iff)
  then have k: "k = of_int (py_round (k / u)) * u"
    by (simp add: round_nearest_ulp[OF k0] u_def[symmetric] e_def[symmetric])
  have u: "0 < u" by (simp add: u_def ulp_pos)
  have "0 < (of_int (py_round (k / u)) :: rat)"
    using k assms(2) u by (metis zero_less_mult_pos2)
  then have "1 \<le> py_round (k / u)" by simp
  then have "(of_int 1 :: rat) \<le> of_int (py_round (k / u))" by (simp only: of_int_le_iff)
  then have "1 * u \<le> of_int (py_round (k / u)) * u"
    using u by (intro mult_right_mono) simp_all
  then have "u \<le> k" using k by simp
  moreover have "2 powi (- 1074) \<le> u"
    unfolding u_def by (intro power_int_increasing) (simp_all add: e_def)
  ultimately show ?thesis by linarith
qed

lemma float_exponent_unique:
  assumes "2 powi e \<le> \<bar>x\<bar>" "\<bar>x\<bar> < 2 powi (e + 1)"
  shows "float_exponent x = e"
proof -
  have x0: "x \<noteq> 0"
  proof
    assume "x = 0"
    then have "(2::rat) powi e \<le> 0" using assms(1) by simp
    then show False using ulp_pos[of e] by linarith
  qed
  note b = float_exponent_bounds[OF x0]
  have "\<not> float_exponent x < e"
  proof
    assume "float_exponent x < e"
    then have "(2::rat) powi (float_exponent x + 1) \<le> 2 powi e"
      by (intro power_int_increasing) simp_all
    then show False using b(2) assms(1) by linarith
  qed
  moreover have "\<not> e < float_exponent x"
  proof
    assume "e < float_exponent x"
    then have "(2::rat) powi (e + 1) \<le> 2 powi float_exponent x"
      by (intro power_int_increasing) simp_all
    then show False using b(1) assms(2) by linarith
  qed
  ultimately show ?thesis by simp
qed

lemma round_nearest_scaled:
  assumes "2 ^ 52 \<le> n" "n < 2 ^ 53" "- 1074 \<le> e"
  shows "round_nearest (of_int n * 2 powi e) = of_int n * 2 powi e"
proof -
  define x :: rat where "x = of_int n * 2 powi e"
  have p: "0 < (2::rat) powi e" by (rule ulp_pos)
  have "(of_int (2 ^ 52) :: rat) \<le> of_int n" using assms(1) by (simp only: of_int_le_iff)
  then have lo: "(2::rat) ^ 52 \<le> of_int n" by simp
  have "(of_int n :: rat) < of_int (2 ^ 53)" using assms(2) by (simp only: of_int_less_iff)
  then have hi: "(of_int n :: rat) < 2 ^ 53" by simp
  have xpos: "0 < x" using lo p by (simp add: x_def zero_less_mult_iff)
  have "(2::rat) powi (52 + e) = 2 ^ 52 * 2 powi e" by (simp add: power_int_add)
  also have "\<dots> \<le> x" unfolding x_def using lo p by (intro mult_right_mono) simp_all
  finally have 1: "2 powi (52 + e) \<le> \<bar>x\<bar>" using xpos by simp
  have "x < 2 ^ 53 * 2 powi e" unfolding x_def using hi p by (intro mult_strict_right_mono) simp_all
  also have "\<dots> = 2 powi (52 + e + 1)" by (simp add: power_int_add)
  finally have 2: "\<bar>x\<bar> < 2 powi (52 + e + 1)" using xpos by simp
  have fe: "float_exponent x = 52 + e" using 1 2 by (rule float_exponent_unique)
  have mx: "max (float_exponent x) (- 1022) - 52 = e" using assms(3) by (simp add: fe)
  have "x / 2 powi e = of_int n" using p by (simp add: x_def)
  then have "py_round (x / 2 powi e) = n" by (simp only: py_round_of_int)
  then show ?thesis
    using xpos by (simp add: round_nearest_def Let_def mx x_def[symmetric])
qed

subsection \<open>Quantisation\<close>

lemma round_nearest_bound:
  assumes "\<bar>x\<bar> \<le> 9 / 8 * 2 ^ 1023"
  shows "\<bar>round_nearest x\<bar> < 2 ^ 1024"
proof -
  define M :: rat where "M = 2 ^ 1023"
  define t :: rat where "t = 2 powi (- 1075)"
  have M: "8 \<le> M"
  proof -
    have "(2::rat) ^ 3 \<le> 2 ^ 1023" by (rule power_increasing) simp_all
    then show ?thesis by (simp add: M_def)
  qed
  have "t \<le> 2 powi 0" unfolding t_def by (intro power_int_increasing) simp_all
  then have t: "t \<le> 1" by simp
  have "(2::rat) ^ 3 \<le> 2 ^ 53" by (rule power_increasing) simp_all
  then have "\<bar>x\<bar> / 2 ^ 53 \<le> \<bar>x\<bar> / 2 ^ 3"
    by (intro divide_left_mono) simp_all
  then have "\<bar>x\<bar> / 2 ^ 53 \<le> \<bar>x\<bar> / 8" by simp
  moreover have "\<bar>round_nearest x - x\<bar> \<le> \<bar>x\<bar> / 2 ^ 53 + t"
    unfolding t_def by (rule round_nearest_accuracy)
  ultimately have "\<bar>round_nearest x\<bar> \<le> \<bar>x\<bar> + \<bar>x\<bar> / 8 + t" by linarith
  moreover have "\<bar>x\<bar> \<le> 9 / 8 * M" using assms by (simp add: M_def)
  ultimately have "\<bar>round_nearest x\<bar> < 2 * M" using M t by linarith
  moreover have "2 * M = 2 ^ 1024" unfolding M_def by (simp only: power_Suc[symmetric] Suc_eq_plus1) simp
  ultimately show ?thesis by simp
qed

lemma py_float_accuracy:
  assumes "\<bar>of_int q :: rat\<bar> \<le> 2 ^ 1023"
  shows "\<exists>f. py_float q = Inr f \<and> \<bar>f - of_int q\<bar> \<le> \<bar>of_int q\<bar> / 2 ^ 53"
proof -
  define f where "f = round_nearest (of_int q)"
  have "\<bar>of_int q :: rat\<bar> \<le> 9 / 8 * 2 ^ 1023" using assms by linarith
  then have "\<bar>f\<bar> < 2 ^ 1024" unfolding f_def by (rule round_nearest_bound)
  then have "round_double (of_int q) = Finite f" unfolding f_def by (rule round_double_Finite)
  then have pf: "py_float q = Inr f" by (simp add: py_float_def)
  have "\<bar>f - of_int q\<bar> \<le> \<bar>of_int q\<bar> / 2 ^ 53"
  proof (cases "q = 0")
    case True
    then show ?thesis by (simp add: f_def round_nearest_def)
  next
    case False
    then have "1 \<le> \<bar>q\<bar>" by simp
    then have "(of_int 1 :: rat) \<le> of_int \<bar>q\<bar>" by (simp only: of_int_le_iff)
    then have one: "1 \<le> \<bar>of_int q :: rat\<bar>" by simp
    have "(2::rat) powi (- 1022) \<le> 2 powi 0" by (intro power_int_increasing) simp_all
    then have "(2::rat) powi (- 1022) \<le> \<bar>of_int q\<bar>" using one by simp
    then show ?thesis unfolding f_def by (rule round_nearest_accuracy_normal)
  qed
  with pf show ?thesis by blast
qed

lemma dequantize_error:
  assumes bits: "1 \<le> bits" and sc: "scale \<noteq> 0"
    and q: "\<bar>of_int q :: rat\<bar> \<le> 2 ^ 1023" and qs: "\<bar>of_int q * scale\<bar> \<le> 2 ^ 1023"
  shows "\<exists>d. dequantize_value q bits scale = Inr (Finite d) \<and>
             \<bar>d - of_int q * scale\<bar> \<le> 3 * \<bar>of_int q * scale\<bar> / 2 ^ 53 + 2 powi (- 1075)"
proof -
  define u :: rat where "u = 1 / 2 ^ 53"
  define t :: rat where "t = 2 powi (- 1075)"
  define a :: rat where "a = \<bar>of_int q * scale\<bar>"
  from py_float_accuracy[OF q] obtain f where pf: "py_float q = Inr f"
    and fe: "\<bar>f - of_int q\<bar> \<le> \<bar>of_int q\<bar> / 2 ^ 53" by blast
  define d where "d = round_nearest (f * scale)"
  have u: "0 \<le> u" "u \<le> 1 / 8"
  proof -
    show "0 \<le> u" by (simp add: u_def)
    have "(2::rat) ^ 3 \<le> 2 ^ 53" by (rule power_increasing) simp_all
    then have "1 / (2::rat) ^ 53 \<le> 1 / 2 ^ 3" by (intro divide_left_mono) simp_all
    then show "u \<le> 1 / 8" by (simp add: u_def)
  qed
  have a0: "0 \<le> a" by (simp add: a_def)
  have "\<bar>f - of_int q\<bar> * \<bar>scale\<bar> \<le> \<bar>of_int q\<bar> * u * \<bar>scale\<bar>"
    using fe by (intro mult_right_mono) (simp_all add: u_def)
  moreover have "\<bar>f - of_int q\<bar> * \<bar>scale\<bar> = \<bar>f * scale - of_int q * scale\<bar>"
    by (simp add: abs_mult[symmetric] left_diff_distrib)
  moreover have "\<bar>of_int q\<bar> * u * \<bar>scale\<bar> = a * u"
    by (simp add: a_def abs_mult)
  ultimately have e1: "\<bar>f * scale - of_int q * scale\<bar> \<le> a * u" by simp
  have "\<bar>f * scale\<bar> \<le> \<bar>of_int q * scale\<bar> + \<bar>f * scale - of_int q * scale\<bar>" by linarith
  then have b: "\<bar>f * scale\<bar> \<le> a + a * u" using e1 by (simp add: a_def)
  have "a * u \<le> a * (1 / 8)" using u a0 by (intro mult_left_mono) simp_all
  then have "\<bar>f * scale\<bar> \<le> 9 / 8 * a" using b by simp
  moreover have "9 / 8 * a \<le> 9 / 8 * 2 ^ 1023" using qs by (simp add: a_def)
  ultimately have "\<bar>f * scale\<bar> \<le> 9 / 8 * 2 ^ 1023" by linarith
  then have "\<bar>d\<bar> < 2 ^ 1024" unfolding d_def by (rule round_nearest_bound)
  then have "round_double (f * scale) = Finite d" unfolding d_def by (rule round_double_Finite)
  then have dq: "dequantize_value q bits scale = Inr (Finite d)"
    using bits sc pf by (simp add: dequantize_value_def bindE_def float_mul_def)
  have "\<bar>d - f * scale\<bar> \<le> \<bar>f * scale\<bar> * u + t"
    using round_nearest_accuracy[of "f * scale"] by (simp add: d_def u_def t_def)
  moreover have "\<bar>f * scale\<bar> * u \<le> (a + a * u) * u" using b u by (intro mult_right_mono) simp_all
  moreover have "(a + a * u) * u \<le> (a + a * 1) * u"
    using u a0 by (intro mult_right_mono add_left_mono mult_left_mono) simp_all
  ultimately have e2: "\<bar>d - f * scale\<bar> \<le> 2 * a * u + t" by simp
  have "\<bar>d - of_int q * scale\<bar> \<le> \<bar>d - f * scale\<bar> + \<bar>f * scale - of_int q * scale\<bar>" by linarith
  then have "\<bar>d - of_int q * scale\<bar> \<le> 3 * a * u + t" using e1 e2 by linarith
  then have "\<bar>d - of_int q * scale\<bar> \<le> 3 * \<bar>of_int q * scale\<bar> / 2 ^ 53 + 2 powi (- 1075)"
    by (simp add: a_def u_def t_def)
  with dq show ?thesis by blast
qed

lemma clamp_cases:
  assumes "lo \<le> hi"
  shows "\<exists>c. py_max (Finite lo) (py_min (Finite hi) s) = Finite c \<and> lo \<le> c \<and> c \<le> hi \<and>
             (\<forall>x. s = Finite x \<and> lo \<le> x \<and> x \<le> hi \<longrightarrow> c = x)"
  using assms by (cases s) (auto simp: py_max_def py_min_def)

lemma quantize_value_eq:
  assumes "1 \<le> bits" "scale \<noteq> 0"
  shows "quantize_value v bits scale =
    round_int (py_max (Finite (of_int (- (2 ^ nat (bits - 1)))))
                 (py_min (Finite (of_int (2 ^ nat (bits - 1) - 1))) (round_double (v / scale))))"
  using assms by (simp add: quantize_value_def py_shl_def bindE_def Let_def float_div_def)

text \<open>
  Claim C7, as amended. For every \<open>bits \<ge> 1\<close> and \<open>scale \<noteq> 0\<close>, \<^verbatim>\<open>quantize_value\<close> returns an
  integer \<open>q\<close> in \<open>[-2 ^ (bits - 1), 2 ^ (bits - 1) - 1]\<close>. When the float quotient
  \<open>value / scale\<close> is finite and lies in that range, and neither \<open>q\<close> nor \<open>q * scale\<close>
  exceeds \<open>2 ^ 1023\<close> in absolute value (so that \<^verbatim>\<open>float(q)\<close> and the float product do not
  overflow), \<^verbatim>\<open>dequantize_value\<close> of \<open>q\<close> is a finite float that differs from the value by at
  most \<open>\<bar>scale\<bar> / 2\<close>, plus the rounding errors of the float division, the conversion of
  \<open>q\<close> and the float multiplication, together at most
  \<open>(\<bar>value\<bar> + 3 * \<bar>q * scale\<bar>) / 2 ^ 53\<close>, plus \<open>(1 + \<bar>scale\<bar>) / 2 ^ 1075\<close> for a quotient
  or a product that underflows to a subnormal number.
\<close>

theorem quantize_range_and_error:
  assumes "1 \<le> bits" and "scale \<noteq> 0"
  shows "\<exists>q. quantize_value v bits scale = Inr q \<and>
           - (2 ^ nat (bits - 1)) \<le> q \<and> q \<le> 2 ^ nat (bits - 1) - 1 \<and>
           (\<forall>s. float_div v scale = Inr (Finite s) \<and>
                of_int (- (2 ^ nat (bits - 1))) \<le> s \<and> s \<le> of_int (2 ^ nat (bits - 1) - 1) \<and>
                \<bar>of_int q :: rat\<bar> \<le> 2 ^ 1023 \<and> \<bar>of_int q * scale\<bar> \<le> 2 ^ 1023 \<longrightarrow>
              (\<exists>d. dequantize_value q bits scale = Inr (Finite d) \<and>
                   \<bar>d - v\<bar> \<le> \<bar>scale\<bar> / 2 + (\<bar>v\<bar> + 3 * \<bar>of_int q * scale\<bar>) / 2 ^ 53 +
                                (1 + \<bar>scale\<bar>) / 2 ^ 1075))"
proof -
  define half :: int where "half = 2 ^ nat (bits - 1)"
  define t :: rat where "t = 2 powi (- 1075)"
  have t: "t = 1 / 2 ^ 1075"
    unfolding t_def by (simp only: power_int_minus power_int_numeral inverse_eq_divide)
  have hpos: "0 < half" by (simp add: half_def)
  then have lohi: "(of_int (- half) :: rat) \<le> of_int (half - 1)" by simp
  from clamp_cases[OF lohi, of "round_double (v / scale)"] obtain c where
    c: "py_max (Finite (of_int (- half))) (py_min (Finite (of_int (half - 1))) (round_double (v / scale)))
          = Finite c"
    and cr: "of_int (- half) \<le> c" "c \<le> of_int (half - 1)"
    and cs: "\<forall>x. round_double (v / scale) = Finite x \<and> of_int (- half) \<le> x \<and> x \<le> of_int (half - 1)
               \<longrightarrow> c = x"
    by blast
  define q where "q = py_round c"
  have qv: "quantize_value v bits scale = Inr q"
    using quantize_value_eq[OF assms, of v] c
    by (simp add: half_def[symmetric] q_def round_int_def)
  have range: "- half \<le> q \<and> q \<le> half - 1"
    unfolding q_def using py_round_bounds[OF cr] .
  have err: "\<exists>d. dequantize_value q bits scale = Inr (Finite d) \<and>
      \<bar>d - v\<bar> \<le> \<bar>scale\<bar> / 2 + (\<bar>v\<bar> + 3 * \<bar>of_int q * scale\<bar>) / 2 ^ 53 + (1 + \<bar>scale\<bar>) / 2 ^ 1075"
    if r: "float_div v scale = Inr (Finite s) \<and> of_int (- half) \<le> s \<and> s \<le> of_int (half - 1) \<and>
           \<bar>of_int q :: rat\<bar> \<le> 2 ^ 1023 \<and> \<bar>of_int q * scale\<bar> \<le> 2 ^ 1023" for s
  proof -
    have rd: "round_double (v / scale) = Finite s"
      using r assms(2) by (simp add: float_div_def)
    then have sr: "s = round_nearest (v / scale)" by (simp only: round_double_Finite_iff)
    have cl: "c = s" using cs rd r by blast
    from dequantize_error[OF assms] r obtain d where
      dq: "dequantize_value q bits scale = Inr (Finite d)"
      and e2: "\<bar>d - of_int q * scale\<bar> \<le> 3 * \<bar>of_int q * scale\<bar> / 2 ^ 53 + t"
      unfolding t_def by blast
    have near: "\<bar>of_int q - s\<bar> \<le> 1 / 2"
      using py_round_near[of c] by (simp add: q_def cl)
    have "\<bar>s - v / scale\<bar> \<le> \<bar>v / scale\<bar> / 2 ^ 53 + t"
      unfolding sr t_def by (rule round_nearest_accuracy)
    then have "\<bar>of_int q - v / scale\<bar> \<le> 1 / 2 + \<bar>v / scale\<bar> / 2 ^ 53 + t"
      using near by linarith
    then have "\<bar>of_int q - v / scale\<bar> * \<bar>scale\<bar> \<le> (1 / 2 + \<bar>v / scale\<bar> / 2 ^ 53 + t) * \<bar>scale\<bar>"
      by (intro mult_right_mono) simp_all
    moreover have "\<bar>of_int q - v / scale\<bar> * \<bar>scale\<bar> = \<bar>of_int q * scale - v\<bar>"
      using assms(2) by (simp add: abs_mult[symmetric] left_diff_distrib)
    moreover have "(1 / 2 + \<bar>v / scale\<bar> / 2 ^ 53 + t) * \<bar>scale\<bar> =
        \<bar>scale\<bar> / 2 + \<bar>v\<bar> / 2 ^ 53 + \<bar>scale\<bar> * t"
      using assms(2) by (simp add: abs_divide distrib_right)
    ultimately have e1: "\<bar>of_int q * scale - v\<bar> \<le> \<bar>scale\<bar> / 2 + \<bar>v\<bar> / 2 ^ 53 + \<bar>scale\<bar> * t" by simp
    have "\<bar>d - v\<bar> \<le> \<bar>d - of_int q * scale\<bar> + \<bar>of_int q * scale - v\<bar>" by linarith
    then have main: "\<bar>d - v\<bar> \<le> \<bar>scale\<bar> / 2 + (\<bar>v\<bar> / 2 ^ 53 + 3 * \<bar>of_int q * scale\<bar> / 2 ^ 53) +
        (t + \<bar>scale\<bar> * t)"
      using e1 e2 by linarith
    have eq1: "\<bar>v\<bar> / 2 ^ 53 + 3 * \<bar>of_int q * scale\<bar> / 2 ^ 53 =
        (\<bar>v\<bar> + 3 * \<bar>of_int q * scale\<bar>) / 2 ^ 53"
      by (simp only: add_divide_distrib)
    have eq2: "t + \<bar>scale\<bar> * t = (1 + \<bar>scale\<bar>) / 2 ^ 1075"
    proof -
      have "t + \<bar>scale\<bar> * t = (1 + \<bar>scale\<bar>) * t" by (simp only: distrib_right mult_1_left)
      also have "\<dots> = (1 + \<bar>scale\<bar>) * (1 / 2 ^ 1075)" by (simp only: t)
      also have "\<dots> = (1 + \<bar>scale\<bar>) / 2 ^ 1075" by (simp only: times_divide_eq_right mult_1_right)
      finally show ?thesis .
    qed
    have "\<bar>d - v\<bar> \<le> \<bar>scale\<bar> / 2 + (\<bar>v\<bar> + 3 * \<bar>of_int q * scale\<bar>) / 2 ^ 53 +
        (1 + \<bar>scale\<bar>) / 2 ^ 1075"
      using main unfolding eq1 eq2 .
    with dq show ?thesis by blast
  qed
  show ?thesis using qv range err unfolding half_def by blast
qed

lemma float_example_values:
  "round_nearest (11 / 20) = 2476979795053773 / 4503599627370496"
  "round_nearest (1 / 10) = 3602879701896397 / 36028797018963968"
  "float_div (round_nearest (11 / 20)) (round_nearest (1 / 10)) = Inr (Finite (11 / 2))"
  "quantize_value (round_nearest (11 / 20)) 8 (round_nearest (1 / 10)) = Inr 6"
  "dequantize_value 6 8 (round_nearest (1 / 10)) =
     Inr (Finite (1351079888211149 / 2251799813685248))"
  by code_simp+

lemma float_overflow_values:
  "float_div ((2 ^ 53 - 1) * 2 ^ 971) (2 ^ 972) = Inr (Finite (2 ^ 52 - 1 / 2))"
  "quantize_value ((2 ^ 53 - 1) * 2 ^ 971) 64 (2 ^ 972) = Inr (2 ^ 52)"
  "dequantize_value (2 ^ 52) 64 (2 ^ 972) = Inr PosInf"
proof -
  have q: "((2 ^ 53 - 1) * 2 ^ 971 / 2 ^ 972 :: rat) = of_int (2 ^ 53 - 1) * 2 powi (- 1)"
    by (simp add: power_int_minus)
  have v: "(of_int (2 ^ 53 - 1) * 2 powi (- 1) :: rat) = 2 ^ 52 - 1 / 2"
    by (simp add: power_int_minus)
  have "round_nearest (of_int (2 ^ 53 - 1) * 2 powi (- 1)) = of_int (2 ^ 53 - 1) * 2 powi (- 1)"
    by (rule round_nearest_scaled) simp_all
  then have rq: "round_nearest ((2 ^ 53 - 1) * 2 ^ 971 / 2 ^ 972) = 2 ^ 52 - 1 / 2"
    by (simp only: q v)
  have "\<bar>(2::rat) ^ 52 - 1 / 2\<bar> \<le> 2 ^ 64" by simp
  with rq have rd: "round_double ((2 ^ 53 - 1) * 2 ^ 971 / 2 ^ 972) = Finite (2 ^ 52 - 1 / 2)"
    by (rule round_double_small)
  then show fd: "float_div ((2 ^ 53 - 1) * 2 ^ 971) (2 ^ 972) = Inr (Finite (2 ^ 52 - 1 / 2))"
    by (simp add: float_div_def)
  have pr: "py_round (2 ^ 52 - 1 / 2) = 2 ^ 52" by code_simp
  have "quantize_value ((2 ^ 53 - 1) * 2 ^ 971) 64 (2 ^ 972) =
      round_int (py_max (Finite (of_int (- (2 ^ nat (64 - 1)))))
                 (py_min (Finite (of_int (2 ^ nat (64 - 1) - 1)))
                    (round_double ((2 ^ 53 - 1) * 2 ^ 971 / 2 ^ 972))))"
    by (rule quantize_value_eq) simp_all
  also have "\<dots> = round_int (Finite (2 ^ 52 - 1 / 2))"
    unfolding rd by (simp add: py_max_def py_min_def)
  also have "\<dots> = Inr (2 ^ 52)" using pr by (simp add: round_int_def)
  finally show "quantize_value ((2 ^ 53 - 1) * 2 ^ 971) 64 (2 ^ 972) = Inr (2 ^ 52)" .
  have pf: "py_float (2 ^ 52) = Inr (of_int (2 ^ 52))" by (rule py_float_exact) simp_all
  have "round_nearest (of_int (2 ^ 52) * 2 powi 972) = of_int (2 ^ 52) * 2 powi 972"
    by (rule round_nearest_scaled) simp_all
  moreover have "(of_int (2 ^ 52) * 2 powi 972 :: rat) = 2 ^ 1024" by simp
  moreover have "(of_int (2 ^ 52) * 2 ^ 972 :: rat) = 2 ^ 1024" by simp
  ultimately have "round_nearest (of_int (2 ^ 52) * 2 ^ 972) = 2 ^ 1024" by simp
  then have "round_double (of_int (2 ^ 52) * 2 ^ 972) = PosInf"
    by (simp add: round_double_def)
  then show "dequantize_value (2 ^ 52) 64 (2 ^ 972) = Inr PosInf"
    using pf by (simp add: dequantize_value_def bindE_def float_mul_def)
qed

theorem quantize_range_and_error_witness:
  "\<exists>q. quantize_value (round_nearest (11 / 20)) 8 (round_nearest (1 / 10)) = Inr q \<and>
       - 128 \<le> q \<and> q \<le> 127 \<and>
       (\<exists>d. dequantize_value q 8 (round_nearest (1 / 10)) = Inr (Finite d) \<and>
            \<bar>d - round_nearest (11 / 20)\<bar> \<le>
              \<bar>round_nearest (1 / 10)\<bar> / 2 +
              (\<bar>round_nearest (11 / 20)\<bar> + 3 * \<bar>of_int q * round_nearest (1 / 10)\<bar>) / 2 ^ 53 +
              (1 + \<bar>round_nearest (1 / 10)\<bar>) / 2 ^ 1075)"
proof -
  define v where "v = round_nearest (11 / 20)"
  define scale where "scale = round_nearest (1 / 10)"
  have nz: "scale \<noteq> 0" by (simp add: scale_def float_example_values(2))
  from quantize_range_and_error[of 8 scale v, OF _ nz]
  obtain q where q: "quantize_value v 8 scale = Inr q" "- 128 \<le> q" "q \<le> 127"
    and imp: "\<And>s. float_div v scale = Inr (Finite s) \<and> of_int (- 128) \<le> s \<and> s \<le> of_int 127 \<and>
                \<bar>of_int q :: rat\<bar> \<le> 2 ^ 1023 \<and> \<bar>of_int q * scale\<bar> \<le> 2 ^ 1023 \<Longrightarrow>
              (\<exists>d. dequantize_value q 8 scale = Inr (Finite d) \<and>
                   \<bar>d - v\<bar> \<le> \<bar>scale\<bar> / 2 + (\<bar>v\<bar> + 3 * \<bar>of_int q * scale\<bar>) / 2 ^ 53 +
                                (1 + \<bar>scale\<bar>) / 2 ^ 1075)"
    by auto
  have q6: "q = 6" using q(1) float_example_values(4) by (simp add: v_def scale_def)
  have "\<exists>d. dequantize_value q 8 scale = Inr (Finite d) \<and>
                   \<bar>d - v\<bar> \<le> \<bar>scale\<bar> / 2 + (\<bar>v\<bar> + 3 * \<bar>of_int q * scale\<bar>) / 2 ^ 53 +
                                (1 + \<bar>scale\<bar>) / 2 ^ 1075"
  proof (rule imp[of "11 / 2"], intro conjI)
    show "float_div v scale = Inr (Finite (11 / 2))"
      unfolding v_def scale_def by (rule float_example_values(3))
    show "rat_of_int (- 128) \<le> 11 / 2" by simp
    show "11 / 2 \<le> rat_of_int 127" by simp
    have big: "(2::rat) ^ 3 \<le> 2 ^ 1023" by (rule power_increasing) simp_all
    show "\<bar>of_int q :: rat\<bar> \<le> 2 ^ 1023" using big by (simp add: q6)
    have "\<bar>of_int q * scale\<bar> \<le> 2 ^ 3"
      by (simp add: q6 scale_def float_example_values(2))
    then show "\<bar>of_int q * scale\<bar> \<le> 2 ^ 1023" using big by linarith
  qed
  then show ?thesis using q unfolding v_def scale_def by blast
qed

text \<open>
  Claim C7 as stated bounds the error by \<open>scale / 2\<close>. For the doubles nearest to 0.55
  and 0.1 the quotient rounds to the tie 5.5, which \<^verbatim>\<open>round\<close> takes to 6, and the product
  \<open>6 * 0.1\<close> rounds up: the error exceeds \<open>scale / 2\<close>. For a negative scale the bound
  \<open>scale / 2\<close> is negative. For the largest double and the scale \<open>2 ^ 972\<close> the quotient
  \<open>2 ^ 52 - 1 / 2\<close> fits 64 bits and is quantised to \<open>2 ^ 52\<close>, but the product
  \<open>2 ^ 52 * 2 ^ 972\<close> overflows and \<^verbatim>\<open>dequantize_value\<close> returns infinity.
\<close>

theorem quantize_error_counterexample:
  "float_div (round_nearest (11 / 20)) (round_nearest (1 / 10)) = Inr (Finite (11 / 2)) \<and>
   quantize_value (round_nearest (11 / 20)) 8 (round_nearest (1 / 10)) = Inr 6 \<and>
   dequantize_value 6 8 (round_nearest (1 / 10)) =
     Inr (Finite (1351079888211149 / 2251799813685248)) \<and>
   \<not> \<bar>1351079888211149 / 2251799813685248 - round_nearest (11 / 20)\<bar>
       \<le> round_nearest (1 / 10) / 2 \<and>
   quantize_value (round_nearest (3 / 10)) 8 (- 1) = Inr 0 \<and>
   dequantize_value 0 8 (- 1) = Inr (Finite 0) \<and>
   \<not> \<bar>0 - round_nearest (3 / 10)\<bar> \<le> (- 1) / 2 \<and>
   float_div ((2 ^ 53 - 1) * 2 ^ 971) (2 ^ 972) = Inr (Finite (2 ^ 52 - 1 / 2)) \<and>
   quantize_value ((2 ^ 53 - 1) * 2 ^ 971) 64 (2 ^ 972) = Inr (2 ^ 52) \<and>
   dequantize_value (2 ^ 52) 64 (2 ^ 972) = Inr PosInf"
proof -
  have a: "\<not> \<bar>1351079888211149 / 2251799813685248 - round_nearest (11 / 20)\<bar>
       \<le> round_nearest (1 / 10) / 2"
    by (simp add: float_example_values(1,2))
  have b: "quantize_value (round_nearest (3 / 10)) 8 (- 1) = Inr 0" by code_simp
  have c: "dequantize_value 0 8 (- 1) = Inr (Finite 0)" by code_simp
  have d: "\<not> \<bar>0 - round_nearest (3 / 10)\<bar> \<le> (- 1) / 2" by simp
  show ?thesis
    by (intro conjI float_example_values(3,4,5) a b c d float_overflow_values(1,2,3))
qed

subsection \<open>The precision map\<close>

lemma fold_update_length: "length (fold (\<lambda>i ys. ys[i := v]) idxs xs) = length xs"
  by (induction idxs arbitrary: xs) simp_all

lemma fold_update_nth:
  "i < length xs \<Longrightarrow>
   fold (\<lambda>i ys. ys[i := v]) idxs xs ! i = (if i \<in> set idxs then v else xs ! i)"
proof (induction idxs arbitrary: xs)
  case Nil
  then show ?case by simp
next
  case (Cons j idxs)
  have "fold (\<lambda>i ys. ys[i := v]) idxs (xs[j := v]) ! i =
        (if i \<in> set idxs then v else xs[j := v] ! i)"
    using Cons.prems by (intro Cons.IH) simp
  then show ?case using Cons.prems by (auto simp: nth_list_update)
qed

lemma assign_at_ok:
  assumes "fits_int32 v" "set idxs \<subseteq> {..<length xs}"
  shows "assign_at idxs v xs = Inr (fold (\<lambda>i ys. ys[i := v]) idxs xs)"
proof -
  have "list_all (\<lambda>i. i < length xs) idxs" using assms(2) by (auto simp: list_all_iff)
  then show ?thesis
    using assms(1) by (simp add: assign_at_def to_int32_def fits_int32_def bindE_def)
qed

lemma nth_in_take:
  "distinct xs \<Longrightarrow> r < length xs \<Longrightarrow> xs ! r \<in> set (take T xs) \<longleftrightarrow> r < T"
  by (auto simp: in_set_conv_nth nth_eq_iff_index_eq)

lemma nth_in_drop_take:
  "distinct xs \<Longrightarrow> r < length xs \<Longrightarrow> xs ! r \<in> set (drop T (take E xs)) \<longleftrightarrow> T \<le> r \<and> r < E"
proof -
  assume d: "distinct xs" and r: "r < length xs"
  have "set (take E xs) = set (take T (take E xs)) \<union> set (drop T (take E xs))"
    by (metis append_take_drop_id set_append)
  moreover have "set (take T (take E xs)) \<inter> set (drop T (take E xs)) = {}"
    using d by (metis append_take_drop_id distinct_append distinct_take)
  moreover have "take T (take E xs) = take (min T E) xs" by (simp add: min.commute)
  ultimately show ?thesis
    using nth_in_take[OF d r, of E] nth_in_take[OF d r, of "min T E"] by auto
qed

lemma is_argsort_props:
  assumes "is_argsort keys ranked"
  shows "distinct ranked" "length ranked = length keys" "set ranked = {..<length keys}"
    "sorted (map (\<lambda>i. keys ! i) ranked)"
proof -
  have m: "mset ranked = mset [0..<length keys]" using assms by (simp add: is_argsort_def)
  show "distinct ranked" using m by (metis distinct_upt mset_eq_imp_distinct_iff)
  show "length ranked = length keys" using m by (metis length_upt mset_eq_length minus_nat.diff_0)
  show "set ranked = {..<length keys}" using m by (metis atLeast_upt mset_eq_setD)
  show "sorted (map (\<lambda>i. keys ! i) ranked)" using assms by (simp add: is_argsort_def)
qed

lemma stable_argsort_ok: "is_argsort keys (stable_argsort keys)"
  by (simp add: is_argsort_def stable_argsort_def)

lemma ceiling_near:
  fixes x y :: rat
  assumes "\<bar>x - y\<bar> < 1"
  shows "\<bar>\<lceil>x\<rceil> - \<lceil>y\<rceil>\<bar> \<le> 1"
proof -
  have "x \<le> y + 1" "y \<le> x + 1" using assms by linarith+
  then have "\<lceil>x\<rceil> \<le> \<lceil>y + 1\<rceil>" "\<lceil>y\<rceil> \<le> \<lceil>x + 1\<rceil>" by (simp_all only: ceiling_mono)
  moreover have "\<lceil>y + 1\<rceil> = \<lceil>y\<rceil> + 1" "\<lceil>x + 1\<rceil> = \<lceil>x\<rceil> + 1" by simp_all
  ultimately show ?thesis by linarith
qed

lemma tiny_lt: "(2::rat) powi (- 1075) < 1 / 2 ^ 53"
proof -
  have "(2::rat) powi (- 1075) < 2 powi (- 53)" by (intro power_int_strict_increasing) simp_all
  also have "\<dots> = 1 / 2 ^ 53" by (simp only: power_int_minus power_int_numeral inverse_eq_divide)
  finally show ?thesis .
qed

lemma float_product_count:
  assumes n: "0 < n" "int n < 2 ^ 53" and k: "0 < k" "k \<le> 1" "2 powi (- 1074) \<le> k"
  shows "\<exists>p. float_mul (of_nat n) k = Finite p \<and> 0 < p \<and> p \<le> of_nat n \<and>
             \<bar>p - of_nat n * k\<bar> \<le> of_nat n * k / 2 ^ 53 + 2 powi (- 1075)"
proof -
  define x :: rat where "x = of_nat n * k"
  define p where "p = round_nearest x"
  have n1: "(1::rat) \<le> of_nat n" using n(1) by simp
  have pos: "0 < x" using n(1) k(1) by (simp add: x_def)
  have "1 * k \<le> of_nat n * k" using n1 k(1) by (intro mult_right_mono) simp_all
  then have "k \<le> x" by (simp only: mult_1_left x_def)
  then have xk: "2 powi (- 1074) \<le> x" using k(3) by linarith
  have "x \<le> of_nat n * 1" unfolding x_def using k by (intro mult_left_mono) simp_all
  then have le: "x \<le> of_int (int n)" by simp
  have p0: "0 < p" unfolding p_def using xk by (rule round_nearest_pos)
  have pn: "p \<le> of_int (int n)" unfolding p_def using pos le n(2) by (rule round_nearest_le_int)
  have "(of_int (int n) :: rat) < of_int (2 ^ 53)" using n(2) by (simp only: of_int_less_iff)
  then have "(of_int (int n) :: rat) < 2 ^ 53" by simp
  moreover have "(2::rat) ^ 53 \<le> 2 ^ 1024" by (rule power_increasing) simp_all
  ultimately have "\<bar>p\<bar> < 2 ^ 1024" using p0 pn by linarith
  then have "round_double x = Finite p" unfolding p_def by (rule round_double_Finite)
  then have fm: "float_mul (of_nat n) k = Finite p" by (simp add: float_mul_def x_def)
  have "\<bar>p - x\<bar> \<le> \<bar>x\<bar> / 2 ^ 53 + 2 powi (- 1075)"
    unfolding p_def by (rule round_nearest_accuracy)
  then have "\<bar>p - x\<bar> \<le> x / 2 ^ 53 + 2 powi (- 1075)" using pos by simp
  then show ?thesis using fm p0 pn by (auto simp: x_def)
qed

lemma product_near:
  fixes x p :: rat
  assumes n: "int n < 2 ^ 53" and x: "0 \<le> x" "x \<le> of_nat n"
    and p: "\<bar>p - x\<bar> \<le> x / 2 ^ 53 + 2 powi (- 1075)"
  shows "\<bar>p - x\<bar> < 1"
proof -
  have "int n + 1 \<le> 2 ^ 53" using n by simp
  then have "(of_int (int n + 1) :: rat) \<le> of_int (2 ^ 53)" by (simp only: of_int_le_iff)
  then have "(of_nat n :: rat) + 1 \<le> 2 ^ 53" by simp
  then have "x \<le> 2 ^ 53 - 1" using x(2) by linarith
  then have "x / 2 ^ 53 \<le> (2 ^ 53 - 1) / 2 ^ 53" by (intro divide_right_mono) simp_all
  also have "\<dots> = 1 - 1 / 2 ^ 53" by (simp add: diff_divide_distrib)
  finally have "x / 2 ^ 53 \<le> 1 - 1 / 2 ^ 53" .
  then show ?thesis using p tiny_lt by linarith
qed

lemma mid_ratio_value: "round_nearest (3 / 10) = 5404319552844595 / 18014398509481984"
  by code_simp

lemma mid_ratio_range:
  "0 < round_nearest (3 / 10)" "round_nearest (3 / 10) \<le> 1"
  "2 powi (- 1074) \<le> round_nearest (3 / 10)"
proof -
  show "0 < round_nearest (3 / 10)" "round_nearest (3 / 10) \<le> 1"
    by (simp_all add: mid_ratio_value)
  have "(2::rat) powi (- 1074) \<le> 2 powi (- 2)" by (intro power_int_increasing) simp_all
  also have "\<dots> = 1 / 4" by (simp add: power_int_minus)
  also have "\<dots> \<le> round_nearest (3 / 10)" by (simp add: mid_ratio_value)
  finally show "2 powi (- 1074) \<le> round_nearest (3 / 10)" .
qed

text \<open>
  Claim C5, as amended. Let the importance array be non-empty, of a length \<open>n\<close> below
  \<open>2 ^ 53\<close>, \<open>k_ratio\<close> a double in \<open>(0, 1)\<close>, the three bit widths within \<^verbatim>\<open>int32\<close>, and the
  result of \<^verbatim>\<open>np.argsort\<close> an ordering of the indices by ascending key (in any order among
  equal keys). Then \<^verbatim>\<open>adaptive_precision_map\<close> returns an array of length \<open>n\<close> whose every
  entry is one of \<open>high_bits\<close>, \<open>mid_bits\<close>, \<open>low_bits\<close>. The ranking is in descending order
  of \<open>\<bar>importance\<bar>\<close>. With \<open>p\<close> the float product \<^verbatim>\<open>n * k_ratio\<close> and \<open>q\<close> the float product
  \<^verbatim>\<open>n * 0.3\<close>, as the code computes them, \<open>top = \<lceil>p\<rceil>\<close> and \<open>mid = \<lceil>q\<rceil>\<close> clipped to
  \<open>n - top\<close>: the first \<open>top\<close> ranked positions hold \<open>high_bits\<close>, the next \<open>mid\<close> hold
  \<open>mid_bits\<close> and all the others hold \<open>low_bits\<close>. \<open>1 \<le> top \<le> n\<close>, and \<open>top\<close> and \<open>\<lceil>q\<rceil>\<close>
  differ by at most 1 from the ceilings \<open>\<lceil>n * k_ratio\<rceil>\<close> and \<open>\<lceil>n * 3 / 10\<rceil>\<close> of the exact
  products. When the bit widths of the tiers differ, exactly \<open>top\<close> entries equal
  \<open>high_bits\<close> and exactly \<open>mid\<close> equal \<open>mid_bits\<close>.
\<close>

theorem adaptive_precision_map_tiers:
  assumes ne: "importance \<noteq> []"
    and k: "0 < k_ratio" "k_ratio < 1" "is_double k_ratio"
    and small: "int (length importance) < 2 ^ 53"
    and widths: "fits_int32 high_bits" "fits_int32 mid_bits" "fits_int32 low_bits"
    and srt: "is_argsort (map (\<lambda>x. - \<bar>x\<bar>) importance) (np_argsort (map (\<lambda>x. - \<bar>x\<bar>) importance))"
  shows "\<exists>bw p q.
    adaptive_precision_map np_argsort importance k_ratio high_bits mid_bits low_bits = Inr bw \<and>
    float_mul (of_nat (length importance)) k_ratio = Finite p \<and>
    float_mul (of_nat (length importance)) (round_nearest (3 / 10)) = Finite q \<and>
    (let n = length importance;
         ranked = np_argsort (map (\<lambda>x. - \<bar>x\<bar>) importance);
         top = nat \<lceil>p\<rceil>;
         mid = min (nat \<lceil>q\<rceil>) (n - top)
     in length bw = n \<and>
        (\<forall>i<n. bw ! i = high_bits \<or> bw ! i = mid_bits \<or> bw ! i = low_bits) \<and>
        1 \<le> top \<and> top \<le> n \<and>
        \<bar>int top - \<lceil>of_nat n * k_ratio\<rceil>\<bar> \<le> 1 \<and>
        \<bar>\<lceil>q\<rceil> - \<lceil>of_nat n * (3 / 10 :: rat)\<rceil>\<bar> \<le> 1 \<and>
        (\<forall>r<n. \<forall>r'<n. r \<le> r' \<longrightarrow>
           \<bar>importance ! (ranked ! r')\<bar> \<le> \<bar>importance ! (ranked ! r)\<bar>) \<and>
        (\<forall>r<n. bw ! (ranked ! r) =
           (if r < top then high_bits else if r < top + mid then mid_bits else low_bits)) \<and>
        (high_bits \<noteq> mid_bits \<and> high_bits \<noteq> low_bits \<longrightarrow>
           card {i. i < n \<and> bw ! i = high_bits} = top) \<and>
        (mid_bits \<noteq> high_bits \<and> mid_bits \<noteq> low_bits \<longrightarrow>
           card {i. i < n \<and> bw ! i = mid_bits} = mid))"
proof -
  define n where "n = length importance"
  define keys where "keys = map (\<lambda>x. - \<bar>x\<bar>) importance"
  define ranked where "ranked = np_argsort keys"
  have n0: "0 < n" using ne by (simp add: n_def)
  have nsmall: "int n < 2 ^ 53" using small by (simp add: n_def)
  have kd: "2 powi (- 1074) \<le> k_ratio" using k(3,1) by (rule is_double_ge)
  have k1: "k_ratio \<le> 1" using k(2) by simp
  from float_product_count[OF n0 nsmall k(1) k1 kd] obtain p where
    p: "float_mul (of_nat n) k_ratio = Finite p" "0 < p" "p \<le> of_nat n"
       "\<bar>p - of_nat n * k_ratio\<bar> \<le> of_nat n * k_ratio / 2 ^ 53 + 2 powi (- 1075)"
    by blast
  from float_product_count[OF n0 nsmall mid_ratio_range] obtain q where
    q: "float_mul (of_nat n) (round_nearest (3 / 10)) = Finite q" "0 < q" "q \<le> of_nat n"
       "\<bar>q - of_nat n * round_nearest (3 / 10)\<bar> \<le>
          of_nat n * round_nearest (3 / 10) / 2 ^ 53 + 2 powi (- 1075)"
    by blast
  define tc where "tc = \<lceil>p\<rceil>"
  define mc where "mc = \<lceil>q\<rceil>"
  define top where "top = nat tc"
  define mid_end where "mid_end = nat (min (tc + mc) (int n))"
  define mid where "mid = min (nat mc) (n - top)"
  define bw where "bw = fold (\<lambda>i ys. ys[i := mid_bits]) (drop top (take mid_end ranked))
                         (fold (\<lambda>i ys. ys[i := high_bits]) (take top ranked) (replicate n low_bits))"
  have tc: "1 \<le> tc" "tc \<le> int n"
    unfolding tc_def using p(2,3) by (simp_all add: less_ceiling_iff ceiling_le_iff)
  have mc: "1 \<le> mc"
    unfolding mc_def using q(2) by (simp add: less_ceiling_iff)
  have mx: "max 1 tc = tc" "max 1 mc = mc" using tc mc by simp_all
  have top: "1 \<le> top" "top \<le> n" using tc by (simp_all add: top_def)
  have me: "mid_end = top + mid"
    using tc mc by (simp add: mid_end_def top_def mid_def min_def) linarith
  have lk: "length keys = n" by (simp add: keys_def n_def)
  have rk: "distinct ranked" "length ranked = n" "set ranked = {..<n}"
    "sorted (map (\<lambda>i. keys ! i) ranked)"
    using is_argsort_props[of keys ranked] srt
    by (simp_all add: ranked_def keys_def[symmetric] lk)
  have pf: "py_float (int n) = Inr (of_nat n)"
    using py_float_exact[of "int n"] nsmall by simp
  have full: "np_full n low_bits = Inr (replicate n low_bits)"
    using widths(3) by (simp add: np_full_def to_int32_def fits_int32_def bindE_def)
  have a1: "assign_at (take top ranked) high_bits (replicate n low_bits) =
      Inr (fold (\<lambda>i ys. ys[i := high_bits]) (take top ranked) (replicate n low_bits))"
    using widths(1) rk(3) by (intro assign_at_ok) (auto dest: in_set_takeD)
  have a2: "assign_at (drop top (take mid_end ranked)) mid_bits
        (fold (\<lambda>i ys. ys[i := high_bits]) (take top ranked) (replicate n low_bits)) = Inr bw"
    unfolding bw_def using widths(2) rk(3)
    by (intro assign_at_ok) (auto simp: fold_update_length dest!: in_set_dropD in_set_takeD)
  have res: "adaptive_precision_map np_argsort importance k_ratio high_bits mid_bits low_bits = Inr bw"
    unfolding adaptive_precision_map_def Let_def n_def[symmetric] keys_def[symmetric]
      ranked_def[symmetric]
    using ne k(1,2) mx
    by (simp add: pf p(1) q(1) bindE_def ceil_int_def tc_def[symmetric] mc_def[symmetric]
        full top_def[symmetric] a1 mid_end_def[symmetric] a2)
  have len: "length bw = n" by (simp add: bw_def fold_update_length)
  have neartop: "\<bar>int top - \<lceil>of_nat n * k_ratio\<rceil>\<bar> \<le> 1"
  proof -
    have "of_nat n * k_ratio \<le> of_nat n * (1::rat)" using k1 by (intro mult_left_mono) simp_all
    then have "\<bar>p - of_nat n * k_ratio\<bar> < 1"
      using product_near[OF nsmall _ _ p(4)] k(1) by simp
    then have "\<bar>\<lceil>p\<rceil> - \<lceil>of_nat n * k_ratio\<rceil>\<bar> \<le> 1" by (rule ceiling_near)
    then show ?thesis using tc by (simp add: top_def tc_def)
  qed
  have nearmid: "\<bar>\<lceil>q\<rceil> - \<lceil>of_nat n * (3 / 10 :: rat)\<rceil>\<bar> \<le> 1"
  proof -
    define r :: rat where "r = round_nearest (3 / 10)"
    have r: "r = 5404319552844595 / 18014398509481984" by (simp add: r_def mid_ratio_value)
    have nn: "(0::rat) \<le> of_nat n" by simp
    have nb: "(of_nat n :: rat) \<le> 2 ^ 53"
    proof -
      have "int n \<le> 2 ^ 53" using nsmall by simp
      then have "(of_int (int n) :: rat) \<le> of_int (2 ^ 53)" by (simp only: of_int_le_iff)
      then show ?thesis by simp
    qed
    have "of_nat n * r - of_nat n * (3 / 10) = of_nat n * (r - 3 / 10)"
      by (simp only: right_diff_distrib)
    then have "\<bar>of_nat n * r - of_nat n * (3 / 10)\<bar> = \<bar>of_nat n\<bar> * \<bar>r - 3 / 10\<bar>"
      by (simp only: abs_mult)
    also have "\<dots> = of_nat n * \<bar>r - 3 / 10\<bar>" by simp
    also have "\<dots> \<le> 2 ^ 53 * \<bar>r - 3 / 10\<bar>" using nb by (intro mult_right_mono) simp_all
    also have "\<dots> \<le> 1 / 10" by (simp add: r)
    finally have d1: "\<bar>of_nat n * r - of_nat n * (3 / 10)\<bar> \<le> 1 / 10" .
    have "of_nat n * r / 2 ^ 53 \<le> 2 ^ 53 * r / 2 ^ 53"
      using nb by (intro divide_right_mono mult_right_mono) (simp_all add: r)
    also have "\<dots> \<le> 3 / 10" by (simp add: r)
    finally have "of_nat n * r / 2 ^ 53 \<le> 3 / 10" .
    moreover have "(2::rat) powi (- 1075) < 1 / 2 ^ 53" by (rule tiny_lt)
    moreover have "(1::rat) / 2 ^ 53 \<le> 1 / 10" by simp
    ultimately have "\<bar>q - of_nat n * r\<bar> \<le> 4 / 10" using q(4) unfolding r_def by linarith
    then have "\<bar>q - of_nat n * (3 / 10)\<bar> < 1" using d1 by linarith
    then show ?thesis by (rule ceiling_near)
  qed
  have at: "bw ! (ranked ! r) =
      (if r < top then high_bits else if r < top + mid then mid_bits else low_bits)" if r: "r < n" for r
  proof -
    have i: "ranked ! r < n" using rk(2,3) r by (metis lessThan_iff nth_mem)
    have r': "r < length ranked" using r rk(2) by simp
    show ?thesis
      using i by (simp add: bw_def fold_update_nth fold_update_length
          nth_in_take[OF rk(1) r'] nth_in_drop_take[OF rk(1) r'] me)
  qed
  have entries: "bw ! i = high_bits \<or> bw ! i = mid_bits \<or> bw ! i = low_bits" if "i < n" for i
  proof -
    from that have "i \<in> set ranked" by (simp add: rk(3))
    then obtain r where "r < n" "ranked ! r = i" by (metis in_set_conv_nth rk(2))
    then show ?thesis using at[of r] by auto
  qed
  have desc: "\<bar>importance ! (ranked ! r')\<bar> \<le> \<bar>importance ! (ranked ! r)\<bar>"
    if "r < n" "r' < n" "r \<le> r'" for r r'
  proof -
    have "map (\<lambda>i. keys ! i) ranked ! r \<le> map (\<lambda>i. keys ! i) ranked ! r'"
      using rk(4) that by (intro sorted_nth_mono) (simp_all add: rk(2))
    moreover have "ranked ! r < n" "ranked ! r' < n"
      using rk(2,3) that by (metis lessThan_iff nth_mem)+
    ultimately show ?thesis using that by (simp add: rk(2) keys_def n_def)
  qed
  have inj: "inj_on (\<lambda>r. ranked ! r) {..<n}"
    using rk(1,2) by (auto simp: inj_on_def nth_eq_iff_index_eq)
  have midn: "top + mid \<le> n" using top by (simp add: mid_def)
  have count_high: "card {i. i < n \<and> bw ! i = high_bits} = top"
    if "high_bits \<noteq> mid_bits \<and> high_bits \<noteq> low_bits"
  proof -
    have "{i. i < n \<and> bw ! i = high_bits} = (\<lambda>r. ranked ! r) ` {..<top}"
    proof (intro equalityI subsetI)
      fix i assume "i \<in> {i. i < n \<and> bw ! i = high_bits}"
      then have i: "i < n" "bw ! i = high_bits" by simp_all
      then have "i \<in> set ranked" by (simp add: rk(3))
      then obtain r where r: "r < n" "ranked ! r = i" by (metis in_set_conv_nth rk(2))
      have "r < top" using at[OF r(1)] r(2) i(2) that by (auto split: if_splits)
      then show "i \<in> (\<lambda>r. ranked ! r) ` {..<top}" using r(2) by auto
    next
      fix i assume "i \<in> (\<lambda>r. ranked ! r) ` {..<top}"
      then obtain r where r: "r < top" "i = ranked ! r" by auto
      then have rn: "r < n" using top by simp
      have "ranked ! r < n" using rk(2,3) rn by (metis lessThan_iff nth_mem)
      then show "i \<in> {i. i < n \<and> bw ! i = high_bits}" using at[OF rn] r by simp
    qed
    moreover have "inj_on (\<lambda>r. ranked ! r) {..<top}"
      using inj top by (auto intro: inj_on_subset)
    ultimately show ?thesis by (simp add: card_image)
  qed
  have count_mid: "card {i. i < n \<and> bw ! i = mid_bits} = mid"
    if "mid_bits \<noteq> high_bits \<and> mid_bits \<noteq> low_bits"
  proof -
    have "{i. i < n \<and> bw ! i = mid_bits} = (\<lambda>r. ranked ! r) ` {top..<top + mid}"
    proof (intro equalityI subsetI)
      fix i assume "i \<in> {i. i < n \<and> bw ! i = mid_bits}"
      then have i: "i < n" "bw ! i = mid_bits" by simp_all
      then have "i \<in> set ranked" by (simp add: rk(3))
      then obtain r where r: "r < n" "ranked ! r = i" by (metis in_set_conv_nth rk(2))
      have "top \<le> r \<and> r < top + mid" using at[OF r(1)] r(2) i(2) that by (auto split: if_splits)
      then show "i \<in> (\<lambda>r. ranked ! r) ` {top..<top + mid}" using r(2) by auto
    next
      fix i assume "i \<in> (\<lambda>r. ranked ! r) ` {top..<top + mid}"
      then obtain r where r: "top \<le> r" "r < top + mid" "i = ranked ! r" by auto
      then have rn: "r < n" using midn by simp
      have "ranked ! r < n" using rk(2,3) rn by (metis lessThan_iff nth_mem)
      then show "i \<in> {i. i < n \<and> bw ! i = mid_bits}" using at[OF rn] r by simp
    qed
    moreover have "inj_on (\<lambda>r. ranked ! r) {top..<top + mid}"
      using inj midn by (auto intro: inj_on_subset)
    ultimately show ?thesis by (simp add: card_image)
  qed
  have body: "length bw = n \<and>
        (\<forall>i<n. bw ! i = high_bits \<or> bw ! i = mid_bits \<or> bw ! i = low_bits) \<and>
        1 \<le> top \<and> top \<le> n \<and>
        \<bar>int top - \<lceil>of_nat n * k_ratio\<rceil>\<bar> \<le> 1 \<and>
        \<bar>\<lceil>q\<rceil> - \<lceil>of_nat n * (3 / 10 :: rat)\<rceil>\<bar> \<le> 1 \<and>
        (\<forall>r<n. \<forall>r'<n. r \<le> r' \<longrightarrow>
           \<bar>importance ! (ranked ! r')\<bar> \<le> \<bar>importance ! (ranked ! r)\<bar>) \<and>
        (\<forall>r<n. bw ! (ranked ! r) =
           (if r < top then high_bits else if r < top + mid then mid_bits else low_bits)) \<and>
        (high_bits \<noteq> mid_bits \<and> high_bits \<noteq> low_bits \<longrightarrow>
           card {i. i < n \<and> bw ! i = high_bits} = top) \<and>
        (mid_bits \<noteq> high_bits \<and> mid_bits \<noteq> low_bits \<longrightarrow>
           card {i. i < n \<and> bw ! i = mid_bits} = mid)"
    using len entries top neartop nearmid desc at count_high count_mid by blast
  have "adaptive_precision_map np_argsort importance k_ratio high_bits mid_bits low_bits = Inr bw \<and>
    float_mul (of_nat (length importance)) k_ratio = Finite p \<and>
    float_mul (of_nat (length importance)) (round_nearest (3 / 10)) = Finite q \<and>
    (let n = length importance;
         ranked = np_argsort (map (\<lambda>x. - \<bar>x\<bar>) importance);
         top = nat \<lceil>p\<rceil>;
         mid = min (nat \<lceil>q\<rceil>) (n - top)
     in length bw = n \<and>
        (\<forall>i<n. bw ! i = high_bits \<or> bw ! i = mid_bits \<or> bw ! i = low_bits) \<and>
        1 \<le> top \<and> top \<le> n \<and>
        \<bar>int top - \<lceil>of_nat n * k_ratio\<rceil>\<bar> \<le> 1 \<and>
        \<bar>\<lceil>q\<rceil> - \<lceil>of_nat n * (3 / 10 :: rat)\<rceil>\<bar> \<le> 1 \<and>
        (\<forall>r<n. \<forall>r'<n. r \<le> r' \<longrightarrow>
           \<bar>importance ! (ranked ! r')\<bar> \<le> \<bar>importance ! (ranked ! r)\<bar>) \<and>
        (\<forall>r<n. bw ! (ranked ! r) =
           (if r < top then high_bits else if r < top + mid then mid_bits else low_bits)) \<and>
        (high_bits \<noteq> mid_bits \<and> high_bits \<noteq> low_bits \<longrightarrow>
           card {i. i < n \<and> bw ! i = high_bits} = top) \<and>
        (mid_bits \<noteq> high_bits \<and> mid_bits \<noteq> low_bits \<longrightarrow>
           card {i. i < n \<and> bw ! i = mid_bits} = mid))"
    unfolding Let_def
    using res p(1) q(1) body
    unfolding n_def keys_def ranked_def top_def tc_def mid_def mc_def
    by blast
  then show ?thesis by blast
qed

lemma scenario_b_values:
  "adaptive_precision_map stable_argsort
     [round_nearest (9 / 10), round_nearest (1 / 10), round_nearest (1 / 2),
      round_nearest (1 / 20), round_nearest (7 / 10)] (round_nearest (1 / 5)) 24 16 8 =
     Inr [24, 8, 16, 8, 16]"
  "round_nearest (1 / 5) = 3602879701896397 / 18014398509481984"
  "float_mul 5 (round_nearest (1 / 5)) = Finite 1"
  "is_double (round_nearest (1 / 5))"
  "adaptive_precision_map (\<lambda>keys. [2, 3, 1, 0]) [1 / 4, 1 / 4, 1, 1 / 2]
     (round_nearest (1 / 5)) 24 16 8 = Inr [8, 16, 24, 16]"
  "adaptive_precision_map (\<lambda>keys. [2, 3, 0, 1]) [1 / 4, 1 / 4, 1, 1 / 2]
     (round_nearest (1 / 5)) 24 16 8 = Inr [16, 8, 24, 16]"
  "is_argsort (map (\<lambda>x. - \<bar>x\<bar>) [1 / 4, 1 / 4, 1, 1 / 2]) [2, 3, 1, 0]"
  "is_argsort (map (\<lambda>x. - \<bar>x\<bar>) [1 / 4, 1 / 4, 1, 1 / 2]) [2, 3, 0, 1]"
  by code_simp+

lemma tier_count_values:
  "adaptive_precision_map stable_argsort
     [1, 2, 3, 4, 5, 6, 7, 8, 9, 10, 11, 12, 13, 14, 15, 16, 17, 18, 19, 20, 21, 22, 23, 24, 25]
     (round_nearest (7 / 25)) 24 16 8 =
     Inr [8, 8, 8, 8, 8, 8, 8, 8, 8, 16, 16, 16, 16, 16, 16, 16, 16, 24, 24, 24, 24, 24, 24, 24, 24]"
  "round_nearest (7 / 25) = 1261007895663739 / 4503599627370496"
  "adaptive_precision_map stable_argsort [1, 2, 3] (round_nearest (1 / 5)) (2 ^ 31) 16 8 =
     Inl OverflowError"
  by code_simp+

text \<open>
  Scenario B: importance \<open>[0.9, 0.1, 0.5, 0.05, 0.7]\<close> with \<open>k_ratio = 0.2\<close> and bit widths
  24/16/8 maps to \<open>[24, 8, 16, 8, 16]\<close>, with one entry in the top tier. On
  \<open>[0.25, 0.25, 1, 0.5]\<close> the ranking \<open>[2, 3, 1, 0]\<close>, which breaks the tie against the
  index order, gives \<open>[8, 16, 24, 16]\<close>.
\<close>

theorem adaptive_precision_map_tiers_witness:
  "adaptive_precision_map stable_argsort
     [round_nearest (9 / 10), round_nearest (1 / 10), round_nearest (1 / 2),
      round_nearest (1 / 20), round_nearest (7 / 10)] (round_nearest (1 / 5)) 24 16 8 =
     Inr [24, 8, 16, 8, 16] \<and>
   card {i. i < 5 \<and> [24, 8, 16, 8, 16 :: int] ! i = 24} = 1 \<and>
   adaptive_precision_map (\<lambda>keys. [2, 3, 1, 0]) [1 / 4, 1 / 4, 1, 1 / 2]
     (round_nearest (1 / 5)) 24 16 8 = Inr [8, 16, 24, 16]"
proof -
  define imp where "imp = [round_nearest (9 / 10), round_nearest (1 / 10), round_nearest (1 / 2),
      round_nearest (1 / 20), round_nearest (7 / 10)]"
  define kr where "kr = round_nearest (1 / 5)"
  have k: "0 < kr" "kr < 1" by (simp_all add: kr_def scenario_b_values(2))
  have kd: "is_double kr" unfolding kr_def by (rule scenario_b_values(4))
  have len: "length imp = 5" by (simp add: imp_def)
  have ne: "imp \<noteq> []" by (simp add: imp_def)
  have small: "int (length imp) < 2 ^ 53" by (simp add: len)
  have w: "fits_int32 24" "fits_int32 16" "fits_int32 8" by (simp_all add: fits_int32_def)
  have res: "adaptive_precision_map stable_argsort imp kr 24 16 8 = Inr [24, 8, 16, 8, 16]"
    unfolding imp_def kr_def by (rule scenario_b_values(1))
  have fm: "float_mul (of_nat (length imp)) kr = Finite 1"
    using scenario_b_values(3) by (simp add: len kr_def)
  from adaptive_precision_map_tiers[where np_argsort = stable_argsort,
      OF ne k kd small w stable_argsort_ok, unfolded Let_def]
  obtain bw p where bw: "adaptive_precision_map stable_argsort imp kr 24 16 8 = Inr bw"
    and p: "float_mul (of_nat (length imp)) kr = Finite p"
    and c: "(24::int) \<noteq> 16 \<and> (24::int) \<noteq> 8 \<longrightarrow>
              card {i. i < length imp \<and> bw ! i = 24} = nat \<lceil>p\<rceil>"
    by (elim exE conjE) blast
  have "bw = [24, 8, 16, 8, 16]" using bw res by simp
  moreover have "p = 1" using p fm by simp
  ultimately have "card {i. i < 5 \<and> [24, 8, 16, 8, 16 :: int] ! i = 24} = 1"
    using c len by simp
  then show ?thesis
    using res scenario_b_values(5) by (simp add: imp_def kr_def)
qed

text \<open>
  Claim C5 as stated counts \<open>\<lceil>n * k_ratio\<rceil>\<close> entries in the top tier, for every bit width.
  For \<open>n = 25\<close> and \<open>k_ratio = 0.28\<close> the float product is just above 7 and the top tier has
  8 entries, where \<open>\<lceil>25 * 0.28\<rceil> = 7\<close>. For \<open>n = 5\<close> and \<open>k_ratio = 0.2\<close> the float product is
  exactly 1 and the top tier has one entry, where the exact product of 5 and the double
  nearest to 0.2 is above 1 and its ceiling is 2. A bit width of \<open>2 ^ 31\<close> does not fit
  the \<^verbatim>\<open>int32\<close> array and raises. On tied importances the two orderings \<^verbatim>\<open>np.argsort\<close> may
  return give different bit-width maps.
\<close>

theorem adaptive_precision_map_counterexample:
  "adaptive_precision_map stable_argsort
     [1, 2, 3, 4, 5, 6, 7, 8, 9, 10, 11, 12, 13, 14, 15, 16, 17, 18, 19, 20, 21, 22, 23, 24, 25]
     (round_nearest (7 / 25)) 24 16 8 =
     Inr [8, 8, 8, 8, 8, 8, 8, 8, 8, 16, 16, 16, 16, 16, 16, 16, 16, 24, 24, 24, 24, 24, 24, 24, 24] \<and>
   \<lceil>25 * (7 / 25 :: rat)\<rceil> = 7 \<and>
   adaptive_precision_map stable_argsort
     [round_nearest (9 / 10), round_nearest (1 / 10), round_nearest (1 / 2),
      round_nearest (1 / 20), round_nearest (7 / 10)] (round_nearest (1 / 5)) 24 16 8 =
     Inr [24, 8, 16, 8, 16] \<and>
   \<lceil>5 * round_nearest (1 / 5)\<rceil> = 2 \<and>
   adaptive_precision_map stable_argsort [1, 2, 3] (round_nearest (1 / 5)) (2 ^ 31) 16 8 =
     Inl OverflowError \<and>
   is_argsort (map (\<lambda>x. - \<bar>x\<bar>) [1 / 4, 1 / 4, 1, 1 / 2]) [2, 3, 1, 0] \<and>
   is_argsort (map (\<lambda>x. - \<bar>x\<bar>) [1 / 4, 1 / 4, 1, 1 / 2]) [2, 3, 0, 1] \<and>
   adaptive_precision_map (\<lambda>keys. [2, 3, 1, 0]) [1 / 4, 1 / 4, 1, 1 / 2]
     (round_nearest (1 / 5)) 24 16 8 = Inr [8, 16, 24, 16] \<and>
   adaptive_precision_map (\<lambda>keys. [2, 3, 0, 1]) [1 / 4, 1 / 4, 1, 1 / 2]
     (round_nearest (1 / 5)) 24 16 8 = Inr [16, 8, 24, 16]"
proof -
  have a: "\<lceil>25 * (7 / 25 :: rat)\<rceil> = 7" by simp
  have b: "\<lceil>5 * round_nearest (1 / 5)\<rceil> = 2"
    unfolding scenario_b_values(2) by (simp add: ceiling_eq_iff)
  show ?thesis
    by (intro conjI tier_count_values(1,3) scenario_b_values(1,5,6,7,8) a b)
qed

section \<open>Verification: iss.py\<close>

subsection \<open>Polynomial functions and Lagrange interpolation\<close>

lemma polyfun_const: "\<exists>c. \<forall>z::real. k = (\<Sum>i\<le>n. c i * z ^ i)"
proof (intro exI allI)
  fix z :: real
  show "k = (\<Sum>i\<le>n. (if i = 0 then k else 0) * z ^ i)"
    by (simp add: sum.delta' if_distrib[of "\<lambda>x. x * _"] cong: if_cong)
qed

lemma polyfun_add:
  assumes "\<exists>c. \<forall>z::real. g z = (\<Sum>i\<le>n. c i * z ^ i)" "\<exists>c. \<forall>z. h z = (\<Sum>i\<le>n. c i * z ^ i)"
  shows "\<exists>c. \<forall>z. g z + h z = (\<Sum>i\<le>n. c i * z ^ i)"
proof -
  from assms obtain a b where "\<forall>z. g z = (\<Sum>i\<le>n. a i * z ^ i)" "\<forall>z. h z = (\<Sum>i\<le>n. b i * z ^ i)"
    by blast
  then have "\<forall>z. g z + h z = (\<Sum>i\<le>n. (a i + b i) * z ^ i)"
    by (simp add: sum.distrib distrib_right)
  then show ?thesis by (rule exI[where x = "\<lambda>i. a i + b i"])
qed

lemma polyfun_scale:
  assumes "\<exists>c. \<forall>z::real. g z = (\<Sum>i\<le>n. c i * z ^ i)"
  shows "\<exists>c. \<forall>z. k * g z = (\<Sum>i\<le>n. c i * z ^ i)"
proof -
  from assms obtain a where "\<forall>z. g z = (\<Sum>i\<le>n. a i * z ^ i)" by blast
  then have "\<forall>z. k * g z = (\<Sum>i\<le>n. (k * a i) * z ^ i)"
    by (simp add: sum_distrib_left mult.assoc)
  then show ?thesis by (rule exI[where x = "\<lambda>i. k * a i"])
qed

lemma polyfun_sum:
  assumes "finite J" "\<And>j. j \<in> J \<Longrightarrow> \<exists>c. \<forall>z::real. g j z = (\<Sum>i\<le>n. c i * z ^ i)"
  shows "\<exists>c. \<forall>z. (\<Sum>j\<in>J. g j z) = (\<Sum>i\<le>n. c i * z ^ i)"
  using assms
proof (induction J rule: finite_induct)
  case empty
  show ?case using polyfun_const[of 0 n] by simp
next
  case (insert j J)
  have "\<exists>c. \<forall>z. g j z + (\<Sum>j\<in>J. g j z) = (\<Sum>i\<le>n. c i * z ^ i)"
    using insert by (intro polyfun_add) auto
  then show ?case using insert by simp
qed

lemma polyfun_linear:
  assumes "\<exists>c. \<forall>z::real. g z = (\<Sum>i\<le>n. c i * z ^ i)"
  shows "\<exists>c. \<forall>z. (z - a) * g z = (\<Sum>i\<le>Suc n. c i * z ^ i)"
proof -
  from assms obtain c where c: "\<forall>z. g z = (\<Sum>i\<le>n. c i * z ^ i)" by blast
  define d where "d i = (if i = 0 then 0 else c (i - 1)) - a * (if i \<le> n then c i else 0)" for i
  have "(z - a) * g z = (\<Sum>i\<le>Suc n. d i * z ^ i)" for z
  proof -
    have "(\<Sum>i\<le>Suc n. d i * z ^ i) =
          (\<Sum>i\<le>Suc n. (if i = 0 then 0 else c (i - 1)) * z ^ i) - (\<Sum>i\<le>Suc n. a * (if i \<le> n then c i else 0) * z ^ i)"
      by (simp only: d_def left_diff_distrib sum_subtractf)
    also have "(\<Sum>i\<le>Suc n. (if i = 0 then 0 else c (i - 1)) * z ^ i) = (\<Sum>i\<le>n. c i * z ^ Suc i)"
      by (simp add: sum.atMost_Suc_shift del: sum.atMost_Suc power_Suc)
    also have "\<dots> = z * g z"
      by (simp add: c sum_distrib_left mult_ac)
    also have "(\<Sum>i\<le>Suc n. a * (if i \<le> n then c i else 0) * z ^ i) = a * g z"
      by (simp add: c sum_distrib_left mult_ac)
    finally show ?thesis by (simp add: algebra_simps)
  qed
  then show ?thesis by blast
qed

lemma polyfun_mono:
  assumes "\<exists>c. \<forall>z::real. g z = (\<Sum>i\<le>n. c i * z ^ i)" "n \<le> n'"
  shows "\<exists>c. \<forall>z. g z = (\<Sum>i\<le>n'. c i * z ^ i)"
proof -
  from assms obtain c where c: "\<forall>z. g z = (\<Sum>i\<le>n. c i * z ^ i)" by blast
  have "(\<Sum>i\<le>n'. (if i \<le> n then c i else 0) * z ^ i) = (\<Sum>i\<le>n. c i * z ^ i)" for z
  proof -
    have "(\<Sum>i\<le>n'. (if i \<le> n then c i else 0) * z ^ i) = (\<Sum>i\<in>{..n'} \<inter> {..n}. c i * z ^ i)"
      by (simp add: sum.inter_restrict if_distrib[of "\<lambda>x. x * _"] atMost_def cong: if_cong)
    also have "{..n'} \<inter> {..n} = {..n}" using assms(2) by auto
    finally show ?thesis .
  qed
  with c show ?thesis by metis
qed

lemma polyfun_prod_linear:
  assumes "finite M"
  shows "\<exists>c. \<forall>z::real. (\<Prod>m\<in>M. z - x m) = (\<Sum>i\<le>card M. c i * z ^ i)"
  using assms
proof (induction M rule: finite_induct)
  case empty
  show ?case using polyfun_const[of 1 0] by simp
next
  case (insert m M)
  have "\<exists>c. \<forall>z. (z - x m) * (\<Prod>m\<in>M. z - x m) = (\<Sum>i\<le>Suc (card M). c i * z ^ i)"
    using insert.IH by (rule polyfun_linear)
  then show ?case using insert by simp
qed

lemma polyfun_many_roots:
  assumes "\<exists>c. \<forall>z::real. g z = (\<Sum>i\<le>n. c i * z ^ i)"
    and "finite R" "n < card R" "\<And>r. r \<in> R \<Longrightarrow> g r = 0"
  shows "g z = 0"
proof -
  from assms(1) obtain c where c: "\<And>z. g z = (\<Sum>i\<le>n. c i * z ^ i)" by blast
  define Z where "Z = {z. (\<Sum>i\<le>n. c i * z ^ i) = 0}"
  have sub: "R \<subseteq> Z"
  proof
    fix r assume "r \<in> R"
    then have "g r = 0" by (rule assms(4))
    then show "r \<in> Z" unfolding Z_def c by simp
  qed
  have "\<forall>i\<le>n. c i = 0"
  proof (rule ccontr)
    assume "\<not> (\<forall>i\<le>n. c i = 0)"
    then obtain k where k: "c k \<noteq> 0" "k \<le> n" by blast
    have "finite Z \<and> card Z \<le> n"
      unfolding Z_def using k by (rule polyfun_rootbound)
    then have "card R \<le> n"
      using card_mono[of Z R] sub by linarith
    with assms(3) show False by simp
  qed
  then show ?thesis unfolding c by simp
qed


lemma lagrange_interpolation_real:
  fixes x :: "nat \<Rightarrow> real" and p :: "real \<Rightarrow> real"
  assumes inj: "inj_on x {..<n}" and n: "0 < n"
    and poly: "\<exists>c. \<forall>z. p z = (\<Sum>i\<le>n - 1. c i * z ^ i)"
  shows "(\<Sum>j<n. p (x j) * (\<Prod>m\<in>{..<n} - {j}. z - x m) / (\<Prod>m\<in>{..<n} - {j}. x j - x m)) = p z"
proof -
  define d where "d j = (\<Prod>m\<in>{..<n} - {j}. x j - x m)" for j
  define L where "L w = (\<Sum>j<n. p (x j) * (\<Prod>m\<in>{..<n} - {j}. w - x m) / d j)" for w
  have d0: "d j \<noteq> 0" if "j < n" for j
  proof -
    have "x j - x m \<noteq> 0" if "m \<in> {..<n} - {j}" for m
      using inj_onD[OF inj, of j m] that \<open>j < n\<close> by auto
    then show ?thesis by (simp add: d_def)
  qed
  have term_poly: "\<exists>c. \<forall>w. p (x j) * (\<Prod>m\<in>{..<n} - {j}. w - x m) / d j = (\<Sum>i\<le>n - 1. c i * w ^ i)"
    if "j \<in> {..<n}" for j
  proof -
    have card: "card ({..<n} - {j}) = n - 1" using that by simp
    have "\<exists>c. \<forall>w. (\<Prod>m\<in>{..<n} - {j}. w - x m) = (\<Sum>i\<le>n - 1. c i * w ^ i)"
      using polyfun_prod_linear[of "{..<n} - {j}" x] by (simp add: card)
    then have "\<exists>c. \<forall>w. (p (x j) / d j) * (\<Prod>m\<in>{..<n} - {j}. w - x m) = (\<Sum>i\<le>n - 1. c i * w ^ i)"
      by (rule polyfun_scale)
    then show ?thesis by simp
  qed
  have L_poly: "\<exists>c. \<forall>w. L w = (\<Sum>i\<le>n - 1. c i * w ^ i)"
    unfolding L_def using term_poly by (intro polyfun_sum) simp_all
  have negp: "\<exists>c. \<forall>w. (- 1) * p w = (\<Sum>i\<le>n - 1. c i * w ^ i)"
    using poly by (rule polyfun_scale)
  have g_poly: "\<exists>c. \<forall>w. L w + (- 1) * p w = (\<Sum>i\<le>n - 1. c i * w ^ i)"
    using L_poly negp by (rule polyfun_add)
  have L_at: "L (x k) = p (x k)" if k: "k < n" for k
  proof -
    have zero: "p (x j) * (\<Prod>m\<in>{..<n} - {j}. x k - x m) / d j = 0" if "j \<in> {..<n} - {k}" for j
    proof -
      have "k \<in> {..<n} - {j}" using that k by auto
      then have "(\<Prod>m\<in>{..<n} - {j}. x k - x m) = 0"
        by (intro prod_zero) auto
      then show ?thesis by simp
    qed
    have "L (x k) = (\<Sum>j\<in>{..<n}. p (x j) * (\<Prod>m\<in>{..<n} - {j}. x k - x m) / d j)"
      by (simp add: L_def)
    also have "\<dots> = p (x k) * (\<Prod>m\<in>{..<n} - {k}. x k - x m) / d k +
        (\<Sum>j\<in>{..<n} - {k}. p (x j) * (\<Prod>m\<in>{..<n} - {j}. x k - x m) / d j)"
      using k by (subst sum.remove[of _ k]) simp_all
    also have "(\<Sum>j\<in>{..<n} - {k}. p (x j) * (\<Prod>m\<in>{..<n} - {j}. x k - x m) / d j) = 0"
      using zero by (intro sum.neutral) blast
    also have "p (x k) * (\<Prod>m\<in>{..<n} - {k}. x k - x m) / d k = p (x k)"
      using d0[OF k] by (simp add: d_def)
    finally show ?thesis by simp
  qed
  have "L z + (- 1) * p z = 0"
  proof (rule polyfun_many_roots[OF g_poly, of "x ` {..<n}"])
    show "finite (x ` {..<n})" by simp
    show "n - 1 < card (x ` {..<n})" using n by (simp add: card_image[OF inj])
    show "L r + (- 1) * p r = 0" if "r \<in> x ` {..<n}" for r
      using that L_at by auto
  qed
  then show ?thesis by (simp add: L_def d_def)
qed

subsection \<open>Lagrange interpolation at 0 over the integers\<close>

lemma poly_eval_polyfun:
  assumes "length cs \<le> n" "0 < n"
  shows "\<exists>c. \<forall>z::real. (\<Sum>k<length cs. of_int (cs ! k) * z ^ k) = (\<Sum>i\<le>n - 1. c i * z ^ i)"
proof (intro exI allI)
  fix z :: real
  let ?c = "\<lambda>i. if i < length cs then of_int (cs ! i) else (0::real)"
  have "(\<Sum>i\<le>n - 1. ?c i * z ^ i) = (\<Sum>i\<in>{..<n}. ?c i * z ^ i)"
    using assms(2) by (intro sum.cong) auto
  also have "\<dots> = (\<Sum>i\<in>{..<length cs}. ?c i * z ^ i)"
    using assms(1) by (intro sum.mono_neutral_right) auto
  also have "\<dots> = (\<Sum>k<length cs. of_int (cs ! k) * z ^ k)"
    by (intro sum.cong) auto
  finally show "(\<Sum>k<length cs. of_int (cs ! k) * z ^ k) = (\<Sum>i\<le>n - 1. ?c i * z ^ i)" by simp
qed

lemma basis_den_nonzero: "distinct xs \<Longrightarrow> j < length xs \<Longrightarrow> basis_den xs j \<noteq> 0"
  by (auto simp: basis_den_def nth_eq_iff_index_eq)

lemma common_den_div:
  assumes "distinct xs" "j < length xs"
  shows "(\<Prod>i<length xs. basis_den xs i) div basis_den xs j = (\<Prod>i\<in>{..<length xs} - {j}. basis_den xs i)"
proof -
  have "(\<Prod>i<length xs. basis_den xs i) = basis_den xs j * (\<Prod>i\<in>{..<length xs} - {j}. basis_den xs i)"
    using assms(2) by (subst prod.remove[of _ j]) simp_all
  then show ?thesis using basis_den_nonzero[OF assms] by simp
qed

lemma lagrange_integer_identity:
  assumes dist: "distinct xs" and ne: "xs \<noteq> []" and deg: "length cs \<le> length xs"
  shows "(\<Sum>j<length xs. poly_eval cs (xs ! j) * basis_num xs j *
            ((\<Prod>i<length xs. basis_den xs i) div basis_den xs j)) =
         poly_eval cs 0 * (\<Prod>i<length xs. basis_den xs i)"
proof -
  define n where "n = length xs"
  define x :: "nat \<Rightarrow> real" where "x j = of_int (xs ! j)" for j
  define p :: "real \<Rightarrow> real" where "p z = (\<Sum>k<length cs. of_int (cs ! k) * z ^ k)" for z
  define D where "D = (\<Prod>i<n. basis_den xs i)"
  have n0: "0 < n" using ne by (simp add: n_def)
  have inj: "inj_on x {..<n}"
    using dist by (auto simp: inj_on_def x_def n_def nth_eq_iff_index_eq)
  have poly: "\<exists>c. \<forall>z. p z = (\<Sum>i\<le>n - 1. c i * z ^ i)"
    unfolding p_def using poly_eval_polyfun[OF deg[folded n_def] n0] .
  have pe: "p (of_int a) = of_int (poly_eval cs a)" for a
    by (simp add: p_def poly_eval_def)
  have num: "(\<Prod>m\<in>{..<n} - {j}. 0 - x m) = of_int (basis_num xs j)" for j
    by (simp add: basis_num_def x_def n_def)
  have den: "(\<Prod>m\<in>{..<n} - {j}. x j - x m) = of_int (basis_den xs j)" for j
    by (simp add: basis_den_def x_def n_def)
  have lag: "(\<Sum>j<n. p (x j) * of_int (basis_num xs j) / of_int (basis_den xs j)) = p 0"
    using lagrange_interpolation_real[OF inj n0 poly, of 0] by (simp only: num den)
  have "of_int (\<Sum>j<n. poly_eval cs (xs ! j) * basis_num xs j * (D div basis_den xs j)) =
        (\<Sum>j<n. of_int D * (p (x j) * of_int (basis_num xs j) / of_int (basis_den xs j)))"
  proof -
    have "of_int (poly_eval cs (xs ! j) * basis_num xs j * (D div basis_den xs j)) =
          of_int D * (p (x j) * of_int (basis_num xs j) / of_int (basis_den xs j))" if "j < n" for j
    proof -
      have nz: "basis_den xs j \<noteq> 0" using basis_den_nonzero[OF dist] that by (simp add: n_def)
      have "D = basis_den xs j * (D div basis_den xs j)"
        using common_den_div[OF dist, of j] that
        by (simp add: D_def n_def prod.remove[of "{..<length xs}" j])
      then have "(of_int D :: real) = of_int (basis_den xs j) * of_int (D div basis_den xs j)"
        by (metis of_int_mult)
      then show ?thesis using nz by (simp add: x_def pe)
    qed
    then show ?thesis by simp
  qed
  also have "\<dots> = of_int D * p 0"
    by (simp only: sum_distrib_left[symmetric] lag)
  also have "\<dots> = of_int (poly_eval cs 0 * D)"
    using pe[of 0] by simp
  finally have "(\<Sum>j<n. poly_eval cs (xs ! j) * basis_num xs j * (D div basis_den xs j)) = poly_eval cs 0 * D"
    by (simp only: of_int_eq_iff)
  then show ?thesis by (simp add: D_def n_def)
qed

subsection \<open>The loops of reconstruct and share in integer mode\<close>

lemma prod_list_upt: "prod_list (map f [0..<n]) = (\<Prod>i<n. f i)" for f :: "nat \<Rightarrow> int"
  using prod.distinct_set_conv_list[of "[0..<n]" f] by (simp add: atLeast_upt)

lemma sum_list_upt: "sum_list (map f [0..<n]) = (\<Sum>i<n. f i)" for f :: "nat \<Rightarrow> int"
  using sum.distinct_set_conv_list[of "[0..<n]" f] by (simp add: atLeast_upt)

lemma prod_list_upt_except:
  "prod_list (map f (filter (\<lambda>m. m \<noteq> j) [0..<n])) = (\<Prod>i\<in>{..<n} - {j}. f i)" for f :: "nat \<Rightarrow> int"
proof -
  have "set (filter (\<lambda>m. m \<noteq> j) [0..<n]) = {..<n} - {j}" by auto
  then show ?thesis
    using prod.distinct_set_conv_list[of "filter (\<lambda>m. m \<noteq> j) [0..<n]" f] by simp
qed

lemma enumerate_map_upt: "enumerate 0 ys = map (\<lambda>m. (m, ys ! m)) [0..<length ys]"
  by (rule nth_equalityI) (simp_all add: nth_enumerate_eq)

lemma lagrange_loop_eq:
  "\<forall>(m, x, y) \<in> set ps. m \<noteq> j \<longrightarrow> x \<noteq> x_j \<Longrightarrow>
   lagrange_loop x_j j ps (num, den) =
     Inr (num * prod_list (map (\<lambda>(m, x, y). - x) (filter (\<lambda>(m, x, y). m \<noteq> j) ps)),
          den * prod_list (map (\<lambda>(m, x, y). x_j - x) (filter (\<lambda>(m, x, y). m \<noteq> j) ps)))"
proof (induction ps arbitrary: num den)
  case Nil
  then show ?case by simp
next
  case (Cons q ps)
  obtain m x y where q: "q = (m, x, y)" by (cases q)
  show ?case using Cons by (simp add: q mult.assoc)
qed

lemma lagrange_basis_int:
  assumes "distinct (map fst shares)" "j < length shares"
  shows "lagrange_basis shares j None = Inr (basis_num (map fst shares) j, basis_den (map fst shares) j)"
proof -
  define n where "n = length shares"
  define x_j where "x_j = fst (shares ! j)"
  have pre: "\<forall>(m, x, y) \<in> set (enumerate 0 shares). m \<noteq> j \<longrightarrow> x \<noteq> x_j"
  proof -
    have "x \<noteq> x_j" if "m < length shares" "shares ! m = (x, y)" "m \<noteq> j" for m x y
    proof -
      have "map fst shares ! m \<noteq> map fst shares ! j"
        using assms that by (simp add: nth_eq_iff_index_eq del: nth_map)
      then show ?thesis using assms(2) that by (simp add: x_j_def)
    qed
    note ne = this
    have "fst q \<noteq> j \<longrightarrow> fst (snd q) \<noteq> x_j" if "q \<in> set (enumerate 0 shares)" for q
    proof -
      from that obtain m where m: "m < length shares" "q = (m, shares ! m)"
        by (auto simp: enumerate_map_upt)
      show ?thesis using ne[OF m(1) prod.collapse[symmetric]] m(2) by simp
    qed
    then show ?thesis by (simp add: case_prod_beta)
  qed
  have f: "filter (\<lambda>(m, x, y). m \<noteq> j) (enumerate 0 shares) =
           map (\<lambda>m. (m, shares ! m)) (filter (\<lambda>m. m \<noteq> j) [0..<n])"
    by (simp add: enumerate_map_upt filter_map comp_def n_def)
  have num: "prod_list (map (\<lambda>(m, x, y). - x) (filter (\<lambda>(m, x, y). m \<noteq> j) (enumerate 0 shares))) =
             basis_num (map fst shares) j"
  proof -
    have "prod_list (map (\<lambda>(m, x, y). - x) (filter (\<lambda>(m, x, y). m \<noteq> j) (enumerate 0 shares))) =
          (\<Prod>m\<in>{..<n} - {j}. - fst (shares ! m))"
      unfolding f by (simp add: comp_def case_prod_beta prod_list_upt_except)
    also have "\<dots> = basis_num (map fst shares) j"
      unfolding basis_num_def by (intro prod.cong) (auto simp: n_def)
    finally show ?thesis .
  qed
  have den: "prod_list (map (\<lambda>(m, x, y). x_j - x) (filter (\<lambda>(m, x, y). m \<noteq> j) (enumerate 0 shares))) =
             basis_den (map fst shares) j"
  proof -
    have "prod_list (map (\<lambda>(m, x, y). x_j - x) (filter (\<lambda>(m, x, y). m \<noteq> j) (enumerate 0 shares))) =
          (\<Prod>m\<in>{..<n} - {j}. x_j - fst (shares ! m))"
      unfolding f by (simp add: comp_def case_prod_beta prod_list_upt_except)
    also have "\<dots> = basis_den (map fst shares) j"
      unfolding basis_den_def using assms(2) by (intro prod.cong) (auto simp: n_def x_j_def)
    finally show ?thesis .
  qed
  show ?thesis
    using assms(2) lagrange_loop_eq[OF pre, of 1 1]
    by (simp add: lagrange_basis_def x_j_def[symmetric] Let_def bindE_def num den)
qed


lemma reconstruct_bases_eq:
  assumes "distinct (map fst sub)"
  shows "\<forall>j \<in> set js. j < length sub \<Longrightarrow>
    reconstruct_bases sub js (bases, common_den) =
      Inr (bases @ map (\<lambda>j. (basis_num (map fst sub) j, basis_den (map fst sub) j)) js,
           common_den * prod_list (map (basis_den (map fst sub)) js))"
proof (induction js arbitrary: bases common_den)
  case Nil
  then show ?case by simp
next
  case (Cons j js)
  then show ?case
    by (simp add: lagrange_basis_int[OF assms] bindE_def mult.assoc)
qed

lemma reconstruct_numerator_eq:
  assumes "\<forall>q \<in> set ps. fst q < n" and "\<forall>j < n. den j \<noteq> 0"
  shows "reconstruct_numerator (map (\<lambda>j. (num j, den j)) [0..<n]) common_den ps acc =
      Inr (acc + sum_list (map (\<lambda>q. snd (snd q) * num (fst q) * (common_den div den (fst q))) ps))"
  using assms(1)
proof (induction ps arbitrary: acc)
  case Nil
  then show ?case by simp
next
  case (Cons q ps)
  obtain j x y where q: "q = (j, x, y)" by (cases q)
  have j: "j < n" using Cons.prems q by simp
  then have d: "den j \<noteq> 0" using assms(2) by simp
  show ?case using Cons j d
    by (simp add: q py_floordiv_def bindE_def add.assoc)
qed

lemma reconstruct_fraction_eq:
  assumes "distinct (map fst sub)"
  shows "reconstruct_fraction sub =
    Inr (\<Sum>j<length sub. snd (sub ! j) * basis_num (map fst sub) j *
            ((\<Prod>i<length sub. basis_den (map fst sub) i) div basis_den (map fst sub) j),
         \<Prod>i<length sub. basis_den (map fst sub) i)"
proof -
  define n where "n = length sub"
  define X where "X = map fst sub"
  define D where "D = (\<Prod>i<n. basis_den X i)"
  have bases: "reconstruct_bases sub [0..<n] ([], 1) =
      Inr (map (\<lambda>j. (basis_num X j, basis_den X j)) [0..<n], D)"
    using reconstruct_bases_eq[OF assms, of "[0..<n]" "[]" 1]
    by (simp add: n_def X_def D_def prod_list_upt)
  have nz: "\<forall>j < n. basis_den X j \<noteq> 0"
    using basis_den_nonzero[of X] assms by (simp add: X_def n_def)
  have idx: "\<forall>q \<in> set (enumerate 0 sub). fst q < n"
    by (auto simp: enumerate_map_upt n_def)
  have numer: "reconstruct_numerator (map (\<lambda>j. (basis_num X j, basis_den X j)) [0..<n]) D (enumerate 0 sub) 0 =
      Inr (\<Sum>j<n. snd (sub ! j) * basis_num X j * (D div basis_den X j))"
    using reconstruct_numerator_eq[OF idx nz, of "basis_num X" D 0]
    by (simp add: enumerate_map_upt comp_def sum_list_upt n_def)
  show ?thesis
    unfolding reconstruct_fraction_def n_def[symmetric] bases X_def[symmetric]
    by (simp add: bindE_def D_def numer[unfolded D_def])
qed

lemma poly_eval_Cons: "poly_eval (a # cs) x = a + x * poly_eval cs x"
  by (simp add: poly_eval_def sum.lessThan_Suc_shift sum_distrib_left mult_ac del: sum.lessThan_Suc)

lemma poly_eval_Nil: "poly_eval [] x = 0"
  by (simp add: poly_eval_def)

lemma share_eval_eq: "share_eval cs i (y, xi) = y + xi * poly_eval cs i"
  by (induction cs arbitrary: y xi) (simp_all add: poly_eval_Cons poly_eval_Nil algebra_simps)

lemma poly_eval_0: "poly_eval (a # cs) 0 = a"
  by (simp add: poly_eval_Cons)


lemma reconstruct_fraction_poly:
  assumes "distinct xs" "xs \<noteq> []" "length cs \<le> length xs"
  shows "reconstruct_fraction (map (\<lambda>x. (x, poly_eval cs x)) xs) =
      Inr (poly_eval cs 0 * (\<Prod>i<length xs. basis_den xs i), \<Prod>i<length xs. basis_den xs i)"
proof -
  define sub where "sub = map (\<lambda>x. (x, poly_eval cs x)) xs"
  have X: "map fst sub = xs" by (simp add: sub_def comp_def)
  have L: "length sub = length xs" by (simp add: sub_def)
  have "(\<Sum>j<length xs. snd (sub ! j) * basis_num xs j *
            ((\<Prod>i<length xs. basis_den xs i) div basis_den xs j)) =
        (\<Sum>j<length xs. poly_eval cs (xs ! j) * basis_num xs j *
            ((\<Prod>i<length xs. basis_den xs i) div basis_den xs j))"
    by (intro sum.cong) (simp_all add: sub_def)
  also have "\<dots> = poly_eval cs 0 * (\<Prod>i<length xs. basis_den xs i)"
    by (rule lagrange_integer_identity[OF assms])
  finally show ?thesis
    using reconstruct_fraction_eq[of sub] assms(1) by (simp add: X L sub_def[symmetric])
qed

lemma common_den_nonzero: "distinct xs \<Longrightarrow> (\<Prod>i<length xs. basis_den xs i) \<noteq> 0"
  by (simp add: basis_den_nonzero)

lemma reconstruct_int_poly:
  assumes "0 \<le> t" "nat t + 1 \<le> length xs" "distinct (take (nat t + 1) xs)" "length cs \<le> nat t + 1"
  shows "reconstruct (map (\<lambda>x. (x, poly_eval cs x)) xs) t None = Inr (poly_eval cs 0)"
proof -
  define ys where "ys = take (nat t + 1) xs"
  define D where "D = (\<Prod>i<length ys. basis_den ys i)"
  have len: "length ys = nat t + 1" using assms(2) by (simp add: ys_def)
  have pre: "py_prefix (map (\<lambda>x. (x, poly_eval cs x)) xs) (t + 1) = map (\<lambda>x. (x, poly_eval cs x)) ys"
    using assms(1) by (simp add: py_prefix_def ys_def take_map nat_add_distrib)
  have frac: "reconstruct_fraction (map (\<lambda>x. (x, poly_eval cs x)) ys) = Inr (poly_eval cs 0 * D, D)"
    unfolding D_def using assms len by (intro reconstruct_fraction_poly) (auto simp: ys_def)
  have D0: "D \<noteq> 0" unfolding D_def using assms(3) by (intro common_den_nonzero) (simp add: ys_def)
  have ok: "\<not> int (length xs) < t + 1" using assms(1,2) by linarith
  show ?thesis
    using D0 ok by (simp add: reconstruct_def Let_def pre frac bindE_def py_mod_def py_floordiv_def)
qed

text \<open>
  Claim C9. Take \<open>t + 1\<close> shares \<open>(x, f x)\<close> at pairwise distinct integers \<open>x\<close>, for a
  polynomial \<open>f\<close> with \<open>t + 1\<close> integer coefficients (degree \<open>t\<close>, or less when leading
  coefficients vanish). In integer mode the common denominator that \<^verbatim>\<open>reconstruct\<close>
  accumulates is not zero and divides the accumulated numerator, so the test that guards
  the rounding fallback fails, and \<^verbatim>\<open>reconstruct\<close> returns \<open>f 0\<close> by the exact division.
\<close>

theorem reconstruct_exact_division:
  assumes "0 \<le> t" and "length xs = nat t + 1" and "distinct xs" and "length cs = nat t + 1"
  shows "\<exists>numerator common_den.
     reconstruct_fraction (py_prefix (map (\<lambda>x. (x, poly_eval cs x)) xs) (t + 1)) = Inr (numerator, common_den) \<and>
     common_den \<noteq> 0 \<and> numerator mod common_den = 0 \<and>
     reconstruct (map (\<lambda>x. (x, poly_eval cs x)) xs) t None = Inr (poly_eval cs 0)"
proof -
  have pre: "py_prefix (map (\<lambda>x. (x, poly_eval cs x)) xs) (t + 1) = map (\<lambda>x. (x, poly_eval cs x)) xs"
    using assms(1,2) by (simp add: py_prefix_def nat_add_distrib)
  have ne: "xs \<noteq> []" using assms(2) by auto
  have frac: "reconstruct_fraction (map (\<lambda>x. (x, poly_eval cs x)) xs) =
      Inr (poly_eval cs 0 * (\<Prod>i<length xs. basis_den xs i), \<Prod>i<length xs. basis_den xs i)"
    using assms ne by (intro reconstruct_fraction_poly) simp_all
  have rec: "reconstruct (map (\<lambda>x. (x, poly_eval cs x)) xs) t None = Inr (poly_eval cs 0)"
    using assms by (intro reconstruct_int_poly) simp_all
  show ?thesis
    unfolding pre frac using common_den_nonzero[OF assms(3)] rec by simp
qed

theorem reconstruct_exact_division_witness:
  "reconstruct_fraction (py_prefix [(1, 12346), (2, 12361), (5, 12490)] (2 + 1)) = Inr (- 1777680, - 144) \<and>
   reconstruct [(1, 12346), (2, 12361), (5, 12490)] 2 None = Inr 12345"
proof -
  have sh: "map (\<lambda>x. (x, poly_eval [12345, - 6, 7] x)) [1, 2, 5] = [(1, 12346), (2, 12361), (5, 12490)]"
    by (simp add: poly_eval_def lessThan_Suc numeral_3_eq_3)
  have f: "reconstruct_fraction (py_prefix [(1, 12346), (2, 12361), (5, 12490)] (2 + 1)) = Inr (- 1777680, - 144)"
    by code_simp
  from reconstruct_exact_division[of 2 "[1, 2, 5]" "[12345, - 6, 7]", unfolded sh] f
  show ?thesis by (simp add: poly_eval_0)
qed

lemma share_points_int:
  "share_points coeffs None xs = Inr (map (\<lambda>x. (x, poly_eval coeffs x)) xs)"
  by (induction xs) (simp_all add: bindE_def share_eval_eq)

lemma share_int:
  assumes "1 \<le> t" "t < n"
  shows "share draws s n t None =
    Inr (map (\<lambda>x. (x, poly_eval (s # map (\<lambda>k. draw_coeff (draws k)) [0..<nat t]) x)) [1..n])"
  using assms by (simp add: share_def Let_def share_points_int)

lemma take_upto: "0 \<le> k \<Longrightarrow> k \<le> n \<Longrightarrow> take (nat k) [1..n] = [1..k]"
proof (induction "nat k" arbitrary: k)
  case 0
  then show ?case by simp
next
  case (Suc m)
  then have k: "1 \<le> k" "m = nat (k - 1)" by simp_all
  have ih: "take (nat (k - 1)) [1..n] = [1..k - 1]"
    using Suc.prems k by (intro Suc.hyps(1)) simp_all
  have nth: "[1..n] ! nat (k - 1) = k"
    using Suc.prems k by (simp add: nth_upto)
  have "nat k = Suc (nat (k - 1))" using k by simp
  then have "take (nat k) [1..n] = take (nat (k - 1)) [1..n] @ [[1..n] ! nat (k - 1)]"
    using Suc.prems k by (simp add: take_Suc_conv_app_nth)
  also have "\<dots> = [1..k - 1] @ [k]" by (simp add: ih nth)
  also have "\<dots> = [1..k]" using k by (simp add: upto_rec2[of 1 k])
  finally show ?case .
qed

lemma share_reconstruct_int:
  assumes "1 \<le> t" "t < n"
  shows "bindE (share draws s n t None) (\<lambda>shs. reconstruct (py_prefix shs (t + 1)) t None) = Inr s"
proof -
  define cs where "cs = s # map (\<lambda>k. draw_coeff (draws k)) [0..<nat t]"
  have pre: "py_prefix (map (\<lambda>x. (x, poly_eval cs x)) [1..n]) (t + 1) = map (\<lambda>x. (x, poly_eval cs x)) [1..t + 1]"
    using assms take_upto[of "t + 1" n] by (simp add: py_prefix_def take_map)
  have "reconstruct (map (\<lambda>x. (x, poly_eval cs x)) [1..t + 1]) t None = Inr (poly_eval cs 0)"
    using assms by (intro reconstruct_int_poly) (simp_all add: cs_def)
  then show ?thesis
    using assms by (simp add: share_int cs_def[symmetric] bindE_def pre) (simp add: cs_def poly_eval_0)
qed

subsection \<open>Primes: Euclid's lemma and Fermat's little theorem\<close>

lemma prime_coprime:
  assumes "is_prime p" "\<not> p dvd a"
  shows "coprime p a"
proof -
  define g where "g = gcd p a"
  have p: "1 < p" using assms(1) by (simp add: is_prime_def)
  have g0: "0 \<le> g" by (simp add: g_def)
  have gp: "g dvd p" and ga: "g dvd a" by (simp_all add: g_def)
  have "g \<noteq> 0" using gp p by auto
  moreover have "g \<le> p" using gp p by (intro zdvd_imp_le) simp_all
  moreover have "g \<noteq> p" using ga assms(2) by auto
  moreover have "\<not> (2 \<le> g \<and> g < p)" using assms(1) gp by (auto simp: is_prime_def)
  ultimately have "g = 1" using g0 by linarith
  then show ?thesis by (simp add: g_def coprime_iff_gcd_eq_1)
qed

lemma prime_dvd_mult:
  assumes "is_prime p" "p dvd a * b"
  shows "p dvd a \<or> p dvd b"
proof (cases "p dvd a")
  case True
  then show ?thesis by simp
next
  case False
  then have "coprime p a" using assms(1) by (rule prime_coprime[rotated])
  then show ?thesis using assms(2) by (simp add: coprime_dvd_mult_right_iff)
qed

lemma prime_dvd_prod:
  assumes "is_prime p" "finite A" "p dvd (\<Prod>i\<in>A. f i)"
  shows "\<exists>i\<in>A. p dvd f i"
  using assms(2,3)
proof (induction A rule: finite_induct)
  case empty
  then show ?case using assms(1) by (simp add: is_prime_def)
next
  case (insert i A)
  then have "p dvd f i * (\<Prod>i\<in>A. f i)" by simp
  then have "p dvd f i \<or> p dvd (\<Prod>i\<in>A. f i)" by (rule prime_dvd_mult[OF assms(1)])
  then show ?case using insert by auto
qed

lemma prime_dvd_choose:
  assumes "is_prime p" "0 < k" "k < nat p"
  shows "p dvd int (nat p choose k)"
proof -
  obtain k' where k': "k = Suc k'" using assms(2) by (cases k) auto
  have p: "1 < p" using assms(1) by (simp add: is_prime_def)
  have "Suc k' * (nat p choose Suc k') = nat p * ((nat p - 1) choose k')"
    by (rule binomial_absorption)
  then have "int (Suc k') * int (nat p choose Suc k') = int (nat p) * int ((nat p - 1) choose k')"
    by (metis of_nat_mult)
  then have "p dvd int (Suc k') * int (nat p choose Suc k')"
    using p by simp
  moreover have "\<not> p dvd int (Suc k')"
  proof
    assume "p dvd int (Suc k')"
    then have "p \<le> int (Suc k')" by (intro zdvd_imp_le) simp_all
    then show False using assms(3) k' by linarith
  qed
  ultimately show ?thesis using prime_dvd_mult[OF assms(1)] k' by blast
qed

lemma fermat_nat:
  assumes "is_prime p"
  shows "p dvd int a ^ nat p - int a"
proof (induction a)
  case 0
  have "0 < nat p" using assms by (simp add: is_prime_def)
  then show ?case by (simp add: zero_power)
next
  case (Suc a)
  define P where "P = nat p"
  have "1 < p" using assms by (simp add: is_prime_def)
  then have P2: "2 \<le> P" unfolding P_def by linarith
  define x where "x = int a"
  have "(x + 1) ^ P = (\<Sum>k\<le>P. int (P choose k) * x ^ k)"
    using binomial_ring[of x 1 P] by simp
  also have "{..P} = insert 0 (insert P {1..<P})" using P2 by auto
  also have "(\<Sum>k\<in>insert 0 (insert P {1..<P}). int (P choose k) * x ^ k) =
      1 + (x ^ P + (\<Sum>k\<in>{1..<P}. int (P choose k) * x ^ k))"
    using P2 by simp
  finally have eq: "(x + 1) ^ P - (x + 1) = (x ^ P - x) + (\<Sum>k\<in>{1..<P}. int (P choose k) * x ^ k)"
    by simp
  have d1: "p dvd x ^ P - x" using Suc by (simp add: x_def P_def)
  have d2: "p dvd (\<Sum>k\<in>{1..<P}. int (P choose k) * x ^ k)"
  proof (rule dvd_sum)
    fix k assume "k \<in> {1..<P}"
    then have "p dvd int (P choose k)"
      unfolding P_def using assms by (intro prime_dvd_choose) auto
    then show "p dvd int (P choose k) * x ^ k" by simp
  qed
  have "p dvd (x + 1) ^ P - (x + 1)"
    unfolding eq using d1 d2 by (rule dvd_add)
  then show ?case by (simp add: x_def P_def add.commute)
qed

lemma fermat_int:
  assumes "is_prime p"
  shows "p dvd a ^ nat p - a"
proof -
  have p: "1 < p" using assms by (simp add: is_prime_def)
  define b where "b = nat (a mod p)"
  have b: "int b = a mod p" using p by (simp add: b_def)
  have "(a ^ nat p - a) mod p = (a ^ nat p mod p - a mod p) mod p"
    by (simp add: mod_diff_eq)
  also have "a ^ nat p mod p = (a mod p) ^ nat p mod p"
    by (simp add: power_mod)
  also have "((a mod p) ^ nat p mod p - a mod p) mod p = ((a mod p) ^ nat p - a mod p) mod p"
    by (simp add: mod_diff_left_eq)
  also have "\<dots> = 0"
    using fermat_nat[OF assms, of b] by (simp add: b)
  finally show ?thesis by (simp add: dvd_eq_mod_eq_0)
qed

lemma fermat_inverse:
  assumes "is_prime p" "\<not> p dvd a"
  shows "(a * (a mod p) ^ nat (p - 2) mod p) mod p = 1"
proof -
  have p: "1 < p" using assms by (simp add: is_prime_def)
  have "nat p = Suc (Suc (nat (p - 2)))" using p by simp
  then have "a ^ nat p - a = a * (a * a ^ nat (p - 2) - 1)"
    by (simp add: algebra_simps)
  then have "p dvd a * (a * a ^ nat (p - 2) - 1)" using fermat_int[OF assms(1), of a] by simp
  then have "p dvd a * a ^ nat (p - 2) - 1"
    using prime_dvd_mult[OF assms(1)] assms(2) by blast
  then have "(a * a ^ nat (p - 2)) mod p = 1 mod p"
    by (simp add: mod_eq_dvd_iff)
  then have "(a * a ^ nat (p - 2)) mod p = 1" using p by simp
  moreover have "(a * (a mod p) ^ nat (p - 2) mod p) mod p = (a * a ^ nat (p - 2)) mod p"
  proof -
    have "(a * (a mod p) ^ nat (p - 2)) mod p = (a * ((a mod p) ^ nat (p - 2) mod p)) mod p"
      by (simp add: mod_mult_right_eq)
    also have "\<dots> = (a * (a ^ nat (p - 2) mod p)) mod p"
      by (simp add: power_mod)
    also have "\<dots> = (a * a ^ nat (p - 2)) mod p"
      by (simp add: mod_mult_right_eq)
    finally show ?thesis by simp
  qed
  ultimately show ?thesis using p by simp
qed

subsection \<open>reconstruct in modular mode\<close>

lemma fermat_inverse':
  assumes "is_prime p" "\<not> p dvd a"
  shows "(a * ((a mod p) ^ nat (p - 2) mod p)) mod p = 1"
  using fermat_inverse[OF assms] by (simp add: mod_mult_right_eq)

lemma lagrange_basis_mod:
  assumes "distinct (map fst shares)" "j < length shares" "p \<noteq> 0"
  shows "lagrange_basis shares j (Some p) =
    Inr (basis_num (map fst shares) j mod p, basis_den (map fst shares) j mod p)"
proof -
  have "lagrange_basis shares j None = Inr (basis_num (map fst shares) j, basis_den (map fst shares) j)"
    using assms(1,2) by (rule lagrange_basis_int)
  then have "lagrange_loop (fst (shares ! j)) j (enumerate 0 shares) (1, 1) =
      Inr (basis_num (map fst shares) j, basis_den (map fst shares) j)"
    using assms(2)
    by (cases "lagrange_loop (fst (shares ! j)) j (enumerate 0 shares) (1, 1)")
       (auto simp: lagrange_basis_def Let_def bindE_def)
  then show ?thesis
    using assms(2,3) by (simp add: lagrange_basis_def Let_def bindE_def py_mod_def)
qed

lemma reconstruct_mod_loop_eq:
  assumes dist: "distinct (map fst sub)" and p: "2 \<le> p"
  shows "\<forall>q \<in> set ps. fst q < length sub \<Longrightarrow> 0 \<le> acc \<Longrightarrow> acc < p \<Longrightarrow>
    reconstruct_mod_loop sub p ps acc =
      Inr ((acc + sum_list (map (\<lambda>q. snd (snd q) * basis_num (map fst sub) (fst q) *
              ((basis_den (map fst sub) (fst q) mod p) ^ nat (p - 2) mod p)) ps)) mod p)"
proof (induction ps arbitrary: acc)
  case Nil
  then show ?case by simp
next
  case (Cons q ps)
  obtain j x y where q: "q = (j, x, y)" by (cases q)
  define N where "N = basis_num (map fst sub) j"
  define I where "I = (basis_den (map fst sub) j mod p) ^ nat (p - 2) mod p"
  define acc' where "acc' = (acc + (y * (N mod p)) mod p * I) mod p"
  have j: "j < length sub" using Cons.prems q by simp
  have p0: "p \<noteq> 0" "0 < p" "\<bar>p\<bar> \<noteq> 1" "0 \<le> p - 2" using p by simp_all
  have pw: "py_pow3 (basis_den (map fst sub) j mod p) (p - 2) p = Inr I"
    using p0 by (simp add: py_pow3_nonneg I_def)
  have step: "reconstruct_mod_loop sub p (q # ps) acc = reconstruct_mod_loop sub p ps acc'"
    using p0 by (simp add: q lagrange_basis_mod[OF dist j p0(1)] bindE_def pw py_mod_def
        acc'_def N_def)
  have range: "0 \<le> acc'" "acc' < p" using p0 by (simp_all add: acc'_def)
  have ih: "reconstruct_mod_loop sub p ps acc' =
      Inr ((acc' + sum_list (map (\<lambda>q. snd (snd q) * basis_num (map fst sub) (fst q) *
              ((basis_den (map fst sub) (fst q) mod p) ^ nat (p - 2) mod p)) ps)) mod p)"
    using Cons.prems range by (intro Cons.IH) simp_all
  have "acc' mod p = (acc + y * N * I) mod p"
  proof -
    have "((y * (N mod p)) mod p * I) mod p = (y * N * I) mod p"
      by (metis mod_mult_left_eq mod_mult_right_eq)
    then show ?thesis unfolding acc'_def by (metis mod_add_right_eq mod_mod_trivial)
  qed
  then have "(acc' + S) mod p = (acc + y * N * I + S) mod p" for S
    by (metis mod_add_left_eq)
  then show ?case
    unfolding step ih by (simp add: q N_def I_def add.assoc)
qed


lemma mod_sum_cong:
  fixes f g :: "nat \<Rightarrow> int"
  assumes "\<And>j. j \<in> A \<Longrightarrow> f j mod p = g j mod p"
  shows "sum f A mod p = sum g A mod p"
proof -
  have "sum f A mod p = (\<Sum>j\<in>A. f j mod p) mod p" by (simp add: mod_sum_eq)
  also have "(\<Sum>j\<in>A. f j mod p) = (\<Sum>j\<in>A. g j mod p)" using assms by (intro sum.cong) simp_all
  also have "\<dots> mod p = sum g A mod p" by (simp add: mod_sum_eq)
  finally show ?thesis .
qed

lemma lagrange_mod_identity:
  assumes prime: "is_prime p"
    and sep: "\<forall>i<length xs. \<forall>j<length xs. i \<noteq> j \<longrightarrow> \<not> p dvd (xs ! i - xs ! j)"
    and ne: "xs \<noteq> []" and deg: "length cs \<le> length xs"
  shows "(\<Sum>j<length xs. (poly_eval cs (xs ! j) mod p) * basis_num xs j *
            ((basis_den xs j mod p) ^ nat (p - 2) mod p)) mod p = poly_eval cs 0 mod p"
proof -
  define n where "n = length xs"
  define D where "D = (\<Prod>i<n. basis_den xs i)"
  define I where "I j = (basis_den xs j mod p) ^ nat (p - 2) mod p" for j
  define A where "A = (\<Sum>j<n. (poly_eval cs (xs ! j) mod p) * basis_num xs j * I j)"
  have p1: "1 < p" using prime by (simp add: is_prime_def)
  have dist: "distinct xs"
    unfolding distinct_conv_nth
  proof (intro allI impI)
    fix i j assume "i < length xs" "j < length xs" "i \<noteq> j"
    then have "\<not> p dvd (xs ! i - xs ! j)" using sep by blast
    then show "xs ! i \<noteq> xs ! j" by auto
  qed
  have nd: "\<not> p dvd basis_den xs j" if "j < n" for j
  proof
    assume "p dvd basis_den xs j"
    then obtain m where "m \<in> {..<length xs} - {j}" "p dvd (xs ! j - xs ! m)"
      unfolding basis_den_def using prime_dvd_prod[OF prime, of "{..<length xs} - {j}"] by blast
    then show False using sep that by (auto simp: n_def)
  qed
  have ndD: "\<not> p dvd D"
  proof
    assume "p dvd D"
    then obtain j where "j \<in> {..<n}" "p dvd basis_den xs j"
      unfolding D_def using prime_dvd_prod[OF prime, of "{..<n}"] by blast
    then show False using nd by auto
  qed
  have inv: "(basis_den xs j * I j) mod p = 1" if "j < n" for j
    unfolding I_def using fermat_inverse'[OF prime nd[OF that]] .
  have tm: "(D * ((poly_eval cs (xs ! j) mod p) * basis_num xs j * I j)) mod p =
      (poly_eval cs (xs ! j) * basis_num xs j * (D div basis_den xs j)) mod p" if "j \<in> {..<n}" for j
  proof -
    define E where "E = D div basis_den xs j"
    define F where "F = poly_eval cs (xs ! j)"
    define Nj where "Nj = basis_num xs j"
    have j: "j < n" using that by simp
    have "D = basis_den xs j * E"
      using common_den_div[OF dist, of j] j
      by (simp add: D_def E_def n_def prod.remove[of "{..<length xs}" j])
    then have "D * ((F mod p) * Nj * I j) = ((F mod p) * (Nj * E)) * (basis_den xs j * I j)"
      by (simp add: algebra_simps)
    also have "\<dots> mod p = (((F mod p) * (Nj * E)) mod p * ((basis_den xs j * I j) mod p)) mod p"
      by (simp add: mod_mult_eq)
    also have "\<dots> = ((F mod p) * (Nj * E)) mod p"
      by (simp add: inv[OF j])
    also have "\<dots> = (F * (Nj * E)) mod p"
      by (simp add: mod_mult_left_eq)
    finally show ?thesis by (simp add: F_def Nj_def E_def mult.assoc)
  qed
  have "(D * A) mod p = (\<Sum>j<n. D * ((poly_eval cs (xs ! j) mod p) * basis_num xs j * I j)) mod p"
    by (simp add: A_def sum_distrib_left)
  also have "\<dots> = (\<Sum>j<n. poly_eval cs (xs ! j) * basis_num xs j * (D div basis_den xs j)) mod p"
    using tm by (rule mod_sum_cong)
  also have "(\<Sum>j<n. poly_eval cs (xs ! j) * basis_num xs j * (D div basis_den xs j)) = poly_eval cs 0 * D"
    unfolding D_def n_def by (rule lagrange_integer_identity[OF dist ne deg])
  finally have "(D * A) mod p = (D * poly_eval cs 0) mod p" by (simp add: mult.commute)
  then have "p dvd D * A - D * poly_eval cs 0" by (simp add: mod_eq_dvd_iff)
  then have "p dvd D * (A - poly_eval cs 0)" by (simp add: right_diff_distrib)
  then have "p dvd A - poly_eval cs 0" using prime_dvd_mult[OF prime] ndD by blast
  then have "A mod p = poly_eval cs 0 mod p" by (simp add: mod_eq_dvd_iff)
  then show ?thesis by (simp add: A_def I_def n_def)
qed

lemma reconstruct_mod_poly:
  assumes prime: "is_prime p" and t: "0 \<le> t" and len: "nat t + 1 \<le> length xs"
    and sep: "\<forall>i \<le> nat t. \<forall>j \<le> nat t. i \<noteq> j \<longrightarrow> \<not> p dvd (xs ! i - xs ! j)"
    and deg: "length cs \<le> nat t + 1"
  shows "reconstruct (map (\<lambda>x. (x, poly_eval cs x mod p)) xs) t (Some p) = Inr (poly_eval cs 0 mod p)"
proof -
  define ys where "ys = take (nat t + 1) xs"
  define sub where "sub = map (\<lambda>x. (x, poly_eval cs x mod p)) ys"
  have p2: "2 \<le> p" using prime by (simp add: is_prime_def)
  have ly: "length ys = nat t + 1" using len by (simp add: ys_def)
  have sep': "\<forall>i<length ys. \<forall>j<length ys. i \<noteq> j \<longrightarrow> \<not> p dvd (ys ! i - ys ! j)"
    using sep by (simp add: ly ys_def less_Suc_eq_le)
  have dist: "distinct ys"
    unfolding distinct_conv_nth
  proof (intro allI impI)
    fix i j assume "i < length ys" "j < length ys" "i \<noteq> j"
    then have "\<not> p dvd (ys ! i - ys ! j)" using sep' by blast
    then show "ys ! i \<noteq> ys ! j" by auto
  qed
  have X: "map fst sub = ys" by (simp add: sub_def comp_def)
  have L: "length sub = length ys" by (simp add: sub_def)
  have pre: "py_prefix (map (\<lambda>x. (x, poly_eval cs x mod p)) xs) (t + 1) = sub"
    using t by (simp add: py_prefix_def ys_def sub_def take_map nat_add_distrib)
  have idx: "\<forall>q \<in> set (enumerate 0 sub). fst q < length sub"
    by (auto simp: enumerate_map_upt)
  have "reconstruct_mod_loop sub p (enumerate 0 sub) 0 =
      Inr ((0 + sum_list (map (\<lambda>q. snd (snd q) * basis_num (map fst sub) (fst q) *
              ((basis_den (map fst sub) (fst q) mod p) ^ nat (p - 2) mod p)) (enumerate 0 sub))) mod p)"
    using p2 by (intro reconstruct_mod_loop_eq idx) (simp_all add: X dist)
  also have "sum_list (map (\<lambda>q. snd (snd q) * basis_num (map fst sub) (fst q) *
              ((basis_den (map fst sub) (fst q) mod p) ^ nat (p - 2) mod p)) (enumerate 0 sub)) =
      (\<Sum>j<length ys. (poly_eval cs (ys ! j) mod p) * basis_num ys j *
            ((basis_den ys j mod p) ^ nat (p - 2) mod p))"
  proof -
    have "sum_list (map (\<lambda>q. snd (snd q) * basis_num (map fst sub) (fst q) *
              ((basis_den (map fst sub) (fst q) mod p) ^ nat (p - 2) mod p)) (enumerate 0 sub)) =
        (\<Sum>j<length ys. snd (sub ! j) * basis_num ys j * ((basis_den ys j mod p) ^ nat (p - 2) mod p))"
      by (simp add: enumerate_map_upt comp_def sum_list_upt X L)
    also have "\<dots> = (\<Sum>j<length ys. (poly_eval cs (ys ! j) mod p) * basis_num ys j *
            ((basis_den ys j mod p) ^ nat (p - 2) mod p))"
      by (intro sum.cong) (simp_all add: sub_def)
    finally show ?thesis .
  qed
  also have "(0 + (\<Sum>j<length ys. (poly_eval cs (ys ! j) mod p) * basis_num ys j *
            ((basis_den ys j mod p) ^ nat (p - 2) mod p))) mod p = poly_eval cs 0 mod p"
  proof -
    have ne: "ys \<noteq> []" using ly by auto
    have deg': "length cs \<le> length ys" using deg ly by simp
    show ?thesis using lagrange_mod_identity[OF prime sep' ne deg'] by simp
  qed
  finally have loop: "reconstruct_mod_loop sub p (enumerate 0 sub) 0 = Inr (poly_eval cs 0 mod p)" .
  have ok: "\<not> int (length xs) < t + 1" using t len by linarith
  show ?thesis using ok by (simp add: reconstruct_def Let_def pre loop)
qed

subsection \<open>share followed by reconstruct\<close>

lemma share_points_mod:
  "p \<noteq> 0 \<Longrightarrow> share_points coeffs (Some p) xs = Inr (map (\<lambda>x. (x, poly_eval coeffs x mod p)) xs)"
  by (induction xs) (simp_all add: bindE_def share_eval_eq py_mod_def)

lemma share_mod:
  assumes "1 \<le> t" "t < n" "p \<noteq> 0"
  shows "share draws s n t (Some p) =
    Inr (map (\<lambda>x. (x, poly_eval (s # map (\<lambda>k. draw_coeff (draws k)) [0..<nat t]) x mod p)) [1..n])"
  using assms by (simp add: share_def Let_def share_points_mod)

lemma share_reconstruct_mod:
  assumes "1 \<le> t" "t < n" "is_prime p" "t < p"
  shows "bindE (share draws s n t (Some p)) (\<lambda>shs. reconstruct (py_prefix shs (t + 1)) t (Some p)) = Inr (s mod p)"
proof -
  define cs where "cs = s # map (\<lambda>k. draw_coeff (draws k)) [0..<nat t]"
  have p: "1 < p" using assms(3) by (simp add: is_prime_def)
  have pre: "py_prefix (map (\<lambda>x. (x, poly_eval cs x mod p)) [1..n]) (t + 1) =
      map (\<lambda>x. (x, poly_eval cs x mod p)) [1..t + 1]"
    using assms take_upto[of "t + 1" n] by (simp add: py_prefix_def take_map)
  have sep: "\<forall>i \<le> nat t. \<forall>j \<le> nat t. i \<noteq> j \<longrightarrow> \<not> p dvd ([1..t + 1] ! i - [1..t + 1] ! j)"
  proof (intro allI impI)
    fix i j assume ij: "i \<le> nat t" "j \<le> nat t" "i \<noteq> j"
    have d: "[1..t + 1] ! i - [1..t + 1] ! j = int i - int j"
      using ij assms(1) by (simp add: nth_upto)
    have "\<bar>int i - int j\<bar> < p" "int i - int j \<noteq> 0" using ij assms(1,4) by auto
    then have "\<not> p dvd (int i - int j)"
      using zdvd_imp_le[of p "\<bar>int i - int j\<bar>"] by auto
    then show "\<not> p dvd ([1..t + 1] ! i - [1..t + 1] ! j)" unfolding d .
  qed
  have "reconstruct (map (\<lambda>x. (x, poly_eval cs x mod p)) [1..t + 1]) t (Some p) = Inr (poly_eval cs 0 mod p)"
    using assms sep by (intro reconstruct_mod_poly) (simp_all add: cs_def)
  then show ?thesis
    using assms p by (simp add: share_mod cs_def[symmetric] bindE_def pre) (simp add: cs_def poly_eval_0)
qed

text \<open>
  Claim C1, as amended. For every secret \<open>s\<close>, every \<open>1 \<le> t < n\<close> and every random source,
  \<^verbatim>\<open>share\<close> succeeds and \<^verbatim>\<open>reconstruct\<close> on its first \<open>t + 1\<close> shares returns \<open>s\<close> in integer
  mode; in modular mode with a prime \<open>p > t\<close> it returns \<open>s mod p\<close>, which is \<open>s\<close> exactly
  when \<open>0 \<le> s < p\<close>.
\<close>

theorem share_reconstruct_inverts:
  assumes "1 \<le> t" and "t < n"
  shows "bindE (share draws s n t None) (\<lambda>shares. reconstruct (py_prefix shares (t + 1)) t None) = Inr s \<and>
    (is_prime p \<and> t < p \<longrightarrow>
       bindE (share draws s n t (Some p)) (\<lambda>shares. reconstruct (py_prefix shares (t + 1)) t (Some p)) =
         Inr (s mod p))"
  using share_reconstruct_int[OF assms] share_reconstruct_mod[OF assms] by blast

lemma is_prime_7: "is_prime 7"
proof -
  have "d \<in> {2, 3, 4, 5, 6}" if "d \<in> {2..<7}" for d :: int
    using that by auto
  then have "\<not> d dvd 7" if "d \<in> {2..<7}" for d :: int
    using that by fastforce
  then show ?thesis by (simp add: is_prime_def)
qed

theorem share_reconstruct_inverts_witness:
  "bindE (share example_draws 12345 5 2 None) (\<lambda>shares. reconstruct (py_prefix shares (2 + 1)) 2 None) = Inr 12345 \<and>
   bindE (share example_draws 12345 5 2 (Some 7)) (\<lambda>shares. reconstruct (py_prefix shares (2 + 1)) 2 (Some 7)) = Inr 4"
  using share_reconstruct_inverts[of 2 5 example_draws 12345 7] is_prime_7 by simp

text \<open>
  Claim C1 as stated promises the secret itself in modular mode, for every integer secret.
  Modulo the prime 7 the secret \<open>-1\<close> is shared as the points of \<open>-1 + x\<close> reduced modulo
  7 and reconstructed as 6.
\<close>

theorem share_reconstruct_modular_counterexample:
  "is_prime 7 \<and>
   share unit_draws (- 1) 3 1 (Some 7) = Inr [(1, 0), (2, 1), (3, 2)] \<and>
   reconstruct (py_prefix [(1, 0), (2, 1), (3, 2)] (1 + 1)) 1 (Some 7) = Inr 6"
proof -
  have "share unit_draws (- 1) 3 1 (Some 7) = Inr [(1, 0), (2, 1), (3, 2)]" by code_simp
  moreover have "reconstruct (py_prefix [(1, 0), (2, 1), (3, 2)] (1 + 1)) 1 (Some 7) = Inr 6" by code_simp
  ultimately show ?thesis using is_prime_7 by simp
qed

end
